theory Spec2Isabelle
  imports Main "HOL-Library.Word" "HOL-Library.Sublist" "HOL-Library.Char_ord"
    "HOL-Library.List_Lexorder"
begin

section \<open>Listing the installed packages (\<open>list_packages\<close>, \<open>split\<close>)\<close>

text \<open>
  \<open>PackageInfo\<close>, as far as \<open>list_packages\<close> reads it. The installed snapshot
  \<open>prefix_data.m_package_records\<close> is given as the sequence of records in the order in
  which the range-for loop visits them.
\<close>

record package_info =
  name :: string
  version :: string
  build_string :: string
  channel :: string

text \<open>
  \<open>split\<close> (the definition at the end of main.cpp, with a \<open>char\<close> as delimiter).
  \<open>std::getline\<close> extracts characters into \<open>token\<close> up to the next delimiter, which
  it discards, or up to the end of the input; it fails, and the loop ends, when the input
  is at its end and nothing was extracted. So an empty input has no token and a trailing
  delimiter adds none.
\<close>

fun getline_loop :: "string \<Rightarrow> string \<Rightarrow> char \<Rightarrow> string list" where
  "getline_loop token [] delimiter = (if token = [] then [] else [token])"
| "getline_loop token (c # cs) delimiter =
     (if c = delimiter then token # getline_loop [] cs delimiter
      else getline_loop (token @ [c]) cs delimiter)"

definition split :: "string \<Rightarrow> char \<Rightarrow> string list" where
  "split s delimiter = getline_loop [] s delimiter"

text \<open>
  The call \<open>split(package.second.channel, "/")\<close> in \<open>list_packages\<close> is not a call of
  that function: it stands before the definition and passes a string as separator. It
  is a call of the library's \<open>split\<close> for strings, which is not part of main.cpp;
  \<open>list_packages\<close> takes it as a parameter.
\<close>

type_synonym string_split = "string \<Rightarrow> string \<Rightarrow> string list"

text \<open>
  \<open>std::multimap<std::string, std::string, std::less<std::string>>\<close>: the entries in
  key order; \<open>insert\<close> puts a new entry behind the entries whose key is not greater
  (the upper bound), so that equal keys keep their insertion order.
\<close>

type_synonym multimap = "(string \<times> string) list"

definition mm_insert :: "string \<times> string \<Rightarrow> multimap \<Rightarrow> multimap" where
  "mm_insert e mm =
     takeWhile (\<lambda>x. fst x \<le> fst e) mm @ e # dropWhile (\<lambda>x. fst x \<le> fst e) mm"

definition equal_range :: "multimap \<Rightarrow> string \<Rightarrow> multimap" where
  "equal_range mm k = filter (\<lambda>x. fst x = k) mm"

definition default_channel_url :: string where
  "default_channel_url = ''https://repo.anaconda.com/pkgs/''"

text \<open>
  The body of the first loop of \<open>list_packages\<close>: four entries under the package's name.
  \<open>channel.find(url) == 0\<close> holds when the channel starts with the URL. The channel
  is split by the library's \<open>split\<close> with the separator \<open>"/"\<close>. Reading
  \<open>splitted_channel[3]\<close> outside the vector is undefined behaviour: \<open>None\<close>.
\<close>

definition insert_package ::
  "string_split \<Rightarrow> package_info \<Rightarrow> multimap \<Rightarrow> multimap option" where
  "insert_package lib_split p mm =
     (let mm1 = mm_insert (name p, name p) mm;
          mm2 = mm_insert (name p, version p) mm1;
          mm3 = mm_insert (name p, build_string p) mm2
      in if prefix default_channel_url (channel p)
         then Some (mm_insert (name p, '''') mm3)
         else
           (let splitted_channel = lib_split (channel p) ''/''
            in if 3 < length splitted_channel
               then Some (mm_insert (name p, splitted_channel ! 3) mm3)
               else None))"

fun fill_ordered_packages ::
  "string_split \<Rightarrow> package_info list \<Rightarrow> multimap \<Rightarrow> multimap option" where
  "fill_ordered_packages lib_split [] mm = Some mm"
| "fill_ordered_packages lib_split (p # ps) mm =
     (case insert_package lib_split p mm of
        None \<Rightarrow> None
      | Some mm' \<Rightarrow> fill_ordered_packages lib_split ps mm')"

text \<open>
  The second loop: the iterator \<open>it_package\<close> is a position in the entry sequence, the end
  iterator is its length. Each round appends the values of all entries with the current
  key and advances by four; advancing beyond the end is undefined behaviour.
\<close>

function collect_aux :: "multimap \<Rightarrow> nat \<Rightarrow> string list \<Rightarrow> string list option" where
  "collect_aux mm it_package aux =
     (if it_package < length mm then
        (if it_package + 4 \<le> length mm
         then collect_aux mm (it_package + 4)
                (aux @ map snd (equal_range mm (fst (mm ! it_package))))
         else None)
      else Some aux)"
  by pat_completeness auto
termination
  by (relation "measure (\<lambda>(mm, it_package, aux). length mm - it_package)") auto

text \<open>
  The third loop. \<open>j\<close> is an \<open>int\<close>, \<open>aux.size()\<close> a 64-bit \<open>size_t\<close>: the
  comparison converts \<open>j\<close> to \<open>size_t\<close> and the subtraction wraps around. Reading
  \<open>aux[j]\<close> to \<open>aux[j + 3]\<close> outside the vector is undefined behaviour. (The
  counter itself is not bounded here: it would overflow only behind \<open>2^31\<close> entries.)
\<close>

function add_rows :: "string list \<Rightarrow> int \<Rightarrow> string list list \<Rightarrow> string list list option" where
  "add_rows aux j t =
     (if (word_of_int j :: 64 word) < word_of_nat (length aux) - 4 then
        (if 0 \<le> j \<and> nat j + 3 < length aux
         then add_rows aux (j + 4)
                (t @ [[aux ! nat j, aux ! (nat j + 1), aux ! (nat j + 2), aux ! (nat j + 3)]])
         else None)
      else Some t)"
  by pat_completeness auto
termination
  by (relation "measure (\<lambda>(aux, j, t). length aux - nat j)") auto

text \<open>
  \<open>list_packages\<close>: the rows added to the table below its header
  (Name, Version, Build, Channel), or \<open>None\<close> when an access was out of bounds.
\<close>

definition list_packages ::
  "string_split \<Rightarrow> package_info list \<Rightarrow> string list list option" where
  "list_packages lib_split package_records =
     (case fill_ordered_packages lib_split package_records [] of
        None \<Rightarrow> None
      | Some ordered_packages \<Rightarrow>
          (case collect_aux ordered_packages 0 [] of
             None \<Rightarrow> None
           | Some aux \<Rightarrow> add_rows aux 0 []))"

text \<open>
  The unfolding equations of the two loops are used where a proof asks for them.
\<close>

declare collect_aux.simps [simp del]
declare add_rows.simps [simp del]

text \<open>
  What the table is meant to show for a package: the row of its name, version, build and
  channel column (empty for a default channel, else the fourth part of the split channel),
  which is also what the first loop stores under the package's name; and the condition
  under which \<open>splitted_channel[3]\<close> exists.
\<close>

definition channel_column :: "string_split \<Rightarrow> package_info \<Rightarrow> string" where
  "channel_column lib_split p =
     (if prefix default_channel_url (channel p) then []
      else lib_split (channel p) ''/'' ! 3)"

definition table_row :: "string_split \<Rightarrow> package_info \<Rightarrow> string list" where
  "table_row lib_split p = [name p, version p, build_string p, channel_column lib_split p]"

definition channel_in_bounds :: "string_split \<Rightarrow> package_info \<Rightarrow> bool" where
  "channel_in_bounds lib_split p \<longleftrightarrow>
     prefix default_channel_url (channel p) \<or> 3 < length (lib_split (channel p) ''/'')"

definition entries :: "string_split \<Rightarrow> package_info \<Rightarrow> multimap" where
  "entries lib_split p = map (Pair (name p)) (table_row lib_split p)"

section \<open>The install and create commands\<close>

subsection \<open>Data\<close>

text \<open>
  An \<open>fs::path\<close> is the sequence of its elements, as iteration over the path yields
  them (\<open>"/"\<close> first for an absolute path); the empty sequence is the empty path, and
  \<open>operator/\<close> with a relative file name appends one element. A \<open>std::string\<close>
  converts to a path by cutting it at the separators.
\<close>

type_synonym path = "string list"

definition path_append :: "path \<Rightarrow> string \<Rightarrow> path" where
  "path_append p element = p @ [element]"

fun path_elements :: "string \<Rightarrow> string \<Rightarrow> path" where
  "path_elements element [] = (if element = [] then [] else [element])"
| "path_elements element (c # cs) =
     (if c = CHR ''/''
      then (if element = [] then [] else [element]) @ path_elements [] cs
      else path_elements (element @ [c]) cs)"

definition path_of_string :: "string \<Rightarrow> path" where
  "path_of_string s = (if prefix ''/'' s then [''/''] else []) @ path_elements [] s"

text \<open>The option structs filled by the command-line parser, with their defaults.\<close>

record create_options =
  specs :: "string list"
  prefix_opt :: string
  name_opt :: string
  channels_opt :: "string list"

record network_options =
  ssl_verify_opt :: bool
  cacert_path :: string

record global_options =
  verbosity_opt :: int
  always_yes_opt :: bool
  quiet_opt :: bool
  json_opt :: bool
  offline_opt :: bool
  dry_run_opt :: bool

definition default_network_options :: network_options where
  "default_network_options = \<lparr>ssl_verify_opt = True, cacert_path = []\<rparr>"

definition default_global_options :: global_options where
  "default_global_options =
     \<lparr>verbosity_opt = 0, always_yes_opt = False, quiet_opt = False, json_opt = False,
      offline_opt = False, dry_run_opt = False\<rparr>"

text \<open>The fields of the \<open>Context\<close> singleton that main.cpp reads or writes.\<close>

record mamba_context =
  root_prefix :: path
  target_prefix :: path
  channels :: "string list"
  ssl_verify :: string
  verbosity :: int
  quiet :: bool
  json :: bool
  always_yes :: bool
  offline :: bool
  dry_run :: bool

text \<open>
  A repo of the pool with the priority pair that \<open>set_priority\<close> stores. A subdir is
  identified by the channel URL it was made from.
\<close>

datatype repo_source = Installed | Channel string

record repo =
  source :: repo_source
  priority :: int
  subpriority :: int

text \<open>
  Modelled from the spec: the priority pair of the repo that the constructor
  \<open>MRepo(pool, prefix_data)\<close> makes for the installed packages. The constructor is not
  part of main.cpp, and main.cpp never calls \<open>set_priority\<close> on this repo. The spec
  has the installed snapshot feed the pool as the lowest-priority repo, with a priority
  that is a pair of source rank and subpriority: the pair is \<open>(0, 0)\<close>, that of a repo
  whose priority was never raised.
\<close>

definition new_repo_priority :: "int \<times> int" where
  "new_repo_priority = (0, 0)"

datatype solver_flag = SOLVER_FLAG_ALLOW_DOWNGRADE

datatype job_kind = SOLVER_INSTALL

text \<open>The texts written to the console, by name.\<close>

datatype message =
    Banner
  | No_root_prefix
  | No_target_prefix
  | Prefix_does_not_exist
  | Could_not_create_cache_dirs
  | Prefix_already_exists
  | Newline

text \<open>
  What a run does to the outside, in order: console output, the calls of
  \<open>fs::create_directories\<close>, and the calls into the library (subdir data, download,
  prefix data, pool and repos, solver, transaction), which are outside main.cpp.
  \<open>Prompt\<close> carries the answer that \<open>trans.prompt\<close> returned.
\<close>

datatype event =
    Print message
  | Log_warning
  | Create_directories path
  | Subdir_load string
  | Download "string list"
  | Prefix_load path
  | Repo_installed
  | Create_repo string
  | Set_priority string int int
  | Solver_create "(solver_flag \<times> int) list"
  | Add_jobs "string list" job_kind
  | Solve
  | Package_caches path
  | Transaction_create
  | Log_json
  | Prompt bool
  | Execute

text \<open>
  The parts of a run that main.cpp does not decide: the channel URLs computed from the
  configured channels, whether and after how many levels \<open>fs::create_directories\<close>
  fails, which library calls throw, and what the prompt answers.
\<close>

record world =
  calculate_channel_urls :: "string list \<Rightarrow> string list"
  create_directories_fails :: "path \<Rightarrow> nat option"
  throws :: "event \<Rightarrow> bool"
  prompt :: "mamba_context \<Rightarrow> bool"

text \<open>
  The state a run changes: the context, the paths that exist on disk (as far as main.cpp's
  own calls change them), the vector \<open>repos\<close>, and the events so far.
\<close>

record state =
  ctx :: mamba_context
  disk :: "path set"
  repos :: "repo list"
  trace :: "event list"

text \<open>
  How a run ends: the callback returns, \<open>exit\<close> is called with a code, or an exception
  leaves the callback (nothing in main.cpp catches it, the process aborts).
\<close>

datatype outcome = Returned | Exit int | Uncaught_exception

definition start :: "mamba_context \<Rightarrow> path set \<Rightarrow> state" where
  "start c d = \<lparr>ctx = c, disk = d, repos = [], trace = []\<rparr>"

subsection \<open>Steps\<close>

definition emit :: "event \<Rightarrow> state \<Rightarrow> state" where
  "emit e s = s\<lparr>trace := trace s @ [e]\<rparr>"

text \<open>A library call: recorded, and \<open>False\<close> when it throws.\<close>

definition call :: "world \<Rightarrow> event \<Rightarrow> state \<Rightarrow> bool \<times> state" where
  "call w e s = (\<not> throws w e, emit e s)"

fun calls :: "world \<Rightarrow> event list \<Rightarrow> state \<Rightarrow> bool \<times> state" where
  "calls w [] s = (True, s)"
| "calls w (e # es) s =
     (case call w e s of
        (False, s') \<Rightarrow> (False, s')
      | (True, s') \<Rightarrow> calls w es s')"

definition fs_exists :: "state \<Rightarrow> path \<Rightarrow> bool" where
  "fs_exists s p = (p \<noteq> [] \<and> p \<in> disk s)"

text \<open>
  \<open>fs::create_directories\<close> creates the path with every missing ancestor, outermost
  first; when it fails it throws, having created some of the levels.
\<close>

definition dir_chain :: "path \<Rightarrow> path list" where
  "dir_chain p = tl (prefixes p)"

definition create_directories :: "world \<Rightarrow> path \<Rightarrow> state \<Rightarrow> bool \<times> state" where
  "create_directories w p s =
     (let s' = emit (Create_directories p) s
      in case create_directories_fails w p of
           None \<Rightarrow> (True, s'\<lparr>disk := disk s' \<union> set (dir_chain p)\<rparr>)
         | Some k \<Rightarrow> (False, s'\<lparr>disk := disk s' \<union> set (take k (dir_chain p))\<rparr>))"

definition cert_locations :: "string list" where
  "cert_locations =
     [''/etc/ssl/certs/ca-certificates.crt'',
      ''/etc/pki/tls/certs/ca-bundle.crt'',
      ''/etc/ssl/ca-bundle.pem'',
      ''/etc/pki/tls/cacert.pem'',
      ''/etc/pki/ca-trust/extracted/pem/tls-ca-bundle.pem'',
      ''/etc/ssl/cert.pem'']"

definition set_ssl_verify :: "string \<Rightarrow> state \<Rightarrow> state" where
  "set_ssl_verify v s = s\<lparr>ctx := (ctx s)\<lparr>ssl_verify := v\<rparr>\<rparr>"

definition set_network_options :: "network_options \<Rightarrow> state \<Rightarrow> state" where
  "set_network_options n s =
     (if ssl_verify_opt n = False then set_ssl_verify ''<false>'' s
      else if cacert_path n \<noteq> [] then set_ssl_verify (cacert_path n) s
      else
        (let s' = fold (\<lambda>loc t. if fs_exists t (path_of_string loc)
                                  then set_ssl_verify loc t else t) cert_locations s
         in if ssl_verify (ctx s') = []
            then set_ssl_verify ''<false>'' (emit Log_warning s')
            else s'))"

definition set_global_options :: "global_options \<Rightarrow> state \<Rightarrow> state" where
  "set_global_options g s =
     s\<lparr>ctx := (ctx s)\<lparr>verbosity := verbosity_opt g,
                      quiet := quiet_opt g,
                      json := json_opt g,
                      always_yes := always_yes_opt g,
                      offline := offline_opt g,
                      dry_run := dry_run_opt g\<rparr>\<rparr>"

definition set_channels :: "create_options \<Rightarrow> state \<Rightarrow> state" where
  "set_channels c s = s\<lparr>ctx := (ctx s)\<lparr>channels := channels_opt c\<rparr>\<rparr>"

subsection \<open>\<open>install_specs\<close>\<close>

text \<open>
  An exception that leaves a step ends the run; otherwise the run goes on with the rest.
\<close>

definition or_abort ::
  "bool \<times> state \<Rightarrow> (state \<Rightarrow> outcome \<times> state) \<Rightarrow> outcome \<times> state" where
  "or_abort r rest = (case r of (True, s) \<Rightarrow> rest s | (False, s) \<Rightarrow> (Uncaught_exception, s))"

text \<open>
  The end of \<open>install_specs\<close>: for a new environment, and not in a dry run, the
  directories of the target prefix are created; then \<open>trans.execute\<close> is called.
\<close>

definition execute_transaction :: "world \<Rightarrow> bool \<Rightarrow> state \<Rightarrow> outcome \<times> state" where
  "execute_transaction w create_env s =
     or_abort
       (if create_env \<and> \<not> dry_run (ctx s)
        then
          (case create_directories w (target_prefix (ctx s)) s of
             (False, s1) \<Rightarrow> (False, s1)
           | (True, s1) \<Rightarrow>
               (case create_directories w
                       (path_append (target_prefix (ctx s1)) ''conda-meta'') s1 of
                  (False, s2) \<Rightarrow> (False, s2)
                | (True, s2) \<Rightarrow>
                    create_directories w (path_append (target_prefix (ctx s2)) ''pkgs'') s2))
        else (True, s))
       (\<lambda>s'. or_abort (call w Execute s') (\<lambda>s''. (Returned, s'')))"

text \<open>The confirmation: \<open>exit(0)\<close> when \<open>trans.prompt\<close> returns false.\<close>

definition prompt_transaction :: "world \<Rightarrow> bool \<Rightarrow> state \<Rightarrow> outcome \<times> state" where
  "prompt_transaction w create_env s =
     (let s1 = emit (Print Newline) s;
          yes = prompt w (ctx s1);
          s2 = emit (Prompt yes) s1
      in if \<not> yes then (Exit 0, s2) else execute_transaction w create_env s2)"

text \<open>
  The solver, always made with the allow-downgrade flag set to 1, gets the specs of
  \<open>create_options\<close> as install jobs; the transaction is built from it.
\<close>

definition solve_and_plan ::
  "world \<Rightarrow> create_options \<Rightarrow> bool \<Rightarrow> state \<Rightarrow> outcome \<times> state" where
  "solve_and_plan w c create_env s =
     or_abort
       (calls w
          [Solver_create [(SOLVER_FLAG_ALLOW_DOWNGRADE, 1)],
           Add_jobs (specs c) SOLVER_INSTALL,
           Solve,
           Package_caches (path_append (root_prefix (ctx s)) ''pkgs''),
           Transaction_create] s)
       (\<lambda>s1. or_abort (if json (ctx s1) then call w Log_json s1 else (True, s1))
                (prompt_transaction w create_env))"

text \<open>
  The loop over the subdirs: \<open>prio_counter\<close> starts at their number and is decremented
  after each \<open>set_priority\<close>. (It is an \<open>int\<close>; the model leaves out more than
  \<open>2^31 - 1\<close> subdirs.)
\<close>

fun create_repos :: "world \<Rightarrow> string list \<Rightarrow> int \<Rightarrow> state \<Rightarrow> bool \<times> state" where
  "create_repos w [] prio_counter s = (True, s)"
| "create_repos w (subdir # subdirs) prio_counter s =
     (case call w (Create_repo subdir) s of
        (False, s1) \<Rightarrow> (False, s1)
      | (True, s1) \<Rightarrow>
          (case call w (Set_priority subdir prio_counter 0) s1 of
             (False, s2) \<Rightarrow> (False, s2)
           | (True, s2) \<Rightarrow>
               create_repos w subdirs (prio_counter - 1)
                 (s2\<lparr>repos := repos s2 @
                        [\<lparr>source = Channel subdir, priority = prio_counter,
                          subpriority = 0\<rparr>]\<rparr>)))"

text \<open>
  The repos of the pool: first the repo of the installed packages, loaded from the target
  prefix, on which \<open>set_priority\<close> is not called; then one repo for each subdir.
\<close>

definition register_repos ::
  "world \<Rightarrow> create_options \<Rightarrow> bool \<Rightarrow> string list \<Rightarrow> state \<Rightarrow> outcome \<times> state" where
  "register_repos w c create_env subdirs s =
     or_abort
       (calls w [Prefix_load (target_prefix (ctx s)), Repo_installed] (s\<lparr>repos := []\<rparr>))
       (\<lambda>s1. or_abort
                (create_repos w subdirs (int (length subdirs))
                   (s1\<lparr>repos := repos s1 @
                          [\<lparr>source = Installed, priority = fst new_repo_priority,
                            subpriority = snd new_repo_priority\<rparr>]\<rparr>))
                (solve_and_plan w c create_env))"

text \<open>The loop over the channel URLs: one loaded subdir for each.\<close>

fun load_subdirs ::
  "world \<Rightarrow> string list \<Rightarrow> string list \<Rightarrow> state \<Rightarrow> string list option \<times> state" where
  "load_subdirs w [] subdirs s = (Some subdirs, s)"
| "load_subdirs w (url # urls) subdirs s =
     (case call w (Subdir_load url) s of
        (False, s') \<Rightarrow> (None, s')
      | (True, s') \<Rightarrow> load_subdirs w urls (subdirs @ [url]) s')"

definition fetch_repodata ::
  "world \<Rightarrow> create_options \<Rightarrow> bool \<Rightarrow> state \<Rightarrow> outcome \<times> state" where
  "fetch_repodata w c create_env s =
     (case load_subdirs w (calculate_channel_urls w (channels (ctx s))) [] s of
        (None, s1) \<Rightarrow> (Uncaught_exception, s1)
      | (Some subdirs, s1) \<Rightarrow>
          or_abort (call w (Download subdirs) s1) (register_repos w c create_env subdirs))"

text \<open>The directory of the repodata cache below the root prefix.\<close>

definition cache_dir :: "mamba_context \<Rightarrow> path" where
  "cache_dir c = path_append (path_append (root_prefix c) ''pkgs'') ''cache''"

text \<open>
  \<open>install_specs\<close>. The parameter \<open>specs\<close> is not read: the jobs are the specs of
  \<open>create_options\<close>.
\<close>

definition install_specs ::
  "world \<Rightarrow> global_options \<Rightarrow> create_options \<Rightarrow> string list \<Rightarrow> bool \<Rightarrow> state
     \<Rightarrow> outcome \<times> state" where
  "install_specs w g c specs_arg create_env s =
     (let s1 = emit (Print Banner) (set_global_options g s)
      in if root_prefix (ctx s1) = [] then (Exit 1, emit (Print No_root_prefix) s1)
         else if target_prefix (ctx s1) = [] then (Exit 1, emit (Print No_target_prefix) s1)
         else if \<not> fs_exists s1 (target_prefix (ctx s1)) \<and> create_env = False
           then (Exit 1, emit (Print Prefix_does_not_exist) s1)
         else
           (case create_directories w (cache_dir (ctx s1)) s1 of
              (False, s2) \<Rightarrow> (Exit 1, emit (Print Could_not_create_cache_dirs) s2)
            | (True, s2) \<Rightarrow> fetch_repodata w c create_env s2))"

subsection \<open>The callbacks of the install and create subcommands\<close>

definition install_callback ::
  "world \<Rightarrow> network_options \<Rightarrow> global_options \<Rightarrow> create_options \<Rightarrow> state
     \<Rightarrow> outcome \<times> state" where
  "install_callback w n g c s =
     install_specs w g c (specs c) False (set_channels c (set_network_options n s))"

definition create_callback ::
  "world \<Rightarrow> network_options \<Rightarrow> global_options \<Rightarrow> create_options \<Rightarrow> state
     \<Rightarrow> outcome \<times> state" where
  "create_callback w n g c s =
     (let s1 = s\<lparr>ctx := (ctx s)\<lparr>target_prefix := path_of_string (prefix_opt c)\<rparr>\<rparr>;
          s2 = set_channels c (set_network_options n s1)
      in if fs_exists s2 (target_prefix (ctx s2))
         then (Exit 1, emit (Print Prefix_already_exists) s2)
         else install_specs w g c (specs c) True s2)"

text \<open>
  The two subcommands of \<open>main\<close> that end in \<open>install_specs\<close>, run from the context and
  the disk that the process finds.
\<close>

datatype subcommand = Install | Create

definition invoke ::
  "subcommand \<Rightarrow> world \<Rightarrow> network_options \<Rightarrow> global_options \<Rightarrow> create_options
     \<Rightarrow> mamba_context \<Rightarrow> path set \<Rightarrow> outcome \<times> state" where
  "invoke cmd w n g c c0 d0 =
     (case cmd of
        Install \<Rightarrow> install_callback w n g c (start c0 d0)
      | Create \<Rightarrow> create_callback w n g c (start c0 d0))"

section \<open>Notions for the proofs\<close>

text \<open>
  The events of the library calls before the solver, and those of the solver, which is
  made with the allow-downgrade flag set.
\<close>

fun fetch_event :: "event \<Rightarrow> bool" where
  "fetch_event (Print m) = True"
| "fetch_event Log_warning = True"
| "fetch_event (Subdir_load u) = True"
| "fetch_event (Download us) = True"
| "fetch_event (Prefix_load p) = True"
| "fetch_event Repo_installed = True"
| "fetch_event (Create_repo u) = True"
| "fetch_event (Set_priority u n m) = True"
| "fetch_event _ = False"

fun solver_event :: "event \<Rightarrow> bool" where
  "solver_event (Solver_create fs) = (fs = [(SOLVER_FLAG_ALLOW_DOWNGRADE, 1)])"
| "solver_event (Add_jobs js k) = True"
| "solver_event Solve = True"
| "solver_event (Package_caches p) = True"
| "solver_event Transaction_create = True"
| "solver_event Log_json = True"
| "solver_event _ = False"

text \<open>
  \<open>lib_steps P s t\<close>: from \<open>s\<close> to \<open>t\<close> only events in \<open>P\<close> were added, context and
  disk are the same. \<open>early_steps\<close> and \<open>plan_steps\<close> allow the creation of the cache
  directory as well, the latter also the events of the solver.
\<close>

definition lib_steps :: "(event \<Rightarrow> bool) \<Rightarrow> state \<Rightarrow> state \<Rightarrow> bool" where
  "lib_steps P s t \<longleftrightarrow>
     ctx t = ctx s \<and> disk t = disk s \<and> (\<exists>es. trace t = trace s @ es \<and> (\<forall>e \<in> set es. P e))"

definition early_steps :: "state \<Rightarrow> state \<Rightarrow> bool" where
  "early_steps s t \<longleftrightarrow>
     ctx t = ctx s \<and> disk s \<subseteq> disk t \<and>
     disk t \<subseteq> disk s \<union> set (dir_chain (cache_dir (ctx s))) \<and>
     (\<exists>es. trace t = trace s @ es \<and>
        (\<forall>e \<in> set es. fetch_event e \<or> e = Create_directories (cache_dir (ctx s))))"

definition plan_steps :: "state \<Rightarrow> state \<Rightarrow> bool" where
  "plan_steps s t \<longleftrightarrow>
     ctx t = ctx s \<and> disk s \<subseteq> disk t \<and>
     disk t \<subseteq> disk s \<union> set (dir_chain (cache_dir (ctx s))) \<and>
     (\<exists>es. trace t = trace s @ es \<and>
        (\<forall>e \<in> set es. fetch_event e \<or> solver_event e \<or>
           e = Create_directories (cache_dir (ctx s))))"

text \<open>The repos when the solver is made, and what has happened by then.\<close>

definition pool_repos :: "string list \<Rightarrow> repo list" where
  "pool_repos subdirs =
     \<lparr>source = Installed, priority = fst new_repo_priority,
      subpriority = snd new_repo_priority\<rparr> #
     map (\<lambda>(i, u). \<lparr>source = Channel u, priority = int (length subdirs) - int i,
                     subpriority = 0\<rparr>) (enumerate 0 subdirs)"

definition at_solver :: "world \<Rightarrow> state \<Rightarrow> bool" where
  "at_solver w sr \<longleftrightarrow>
     Prefix_load (target_prefix (ctx sr)) \<in> set (trace sr) \<and>
     Repo_installed \<in> set (trace sr) \<and>
     repos sr = pool_repos (calculate_channel_urls w (channels (ctx sr)))"

text \<open>The outcome and the final state of an invocation.\<close>

definition outcome_of ::
  "subcommand \<Rightarrow> world \<Rightarrow> network_options \<Rightarrow> global_options \<Rightarrow> create_options
     \<Rightarrow> mamba_context \<Rightarrow> path set \<Rightarrow> outcome" where
  "outcome_of cmd w n g c c0 d0 = fst (invoke cmd w n g c c0 d0)"

definition final_state ::
  "subcommand \<Rightarrow> world \<Rightarrow> network_options \<Rightarrow> global_options \<Rightarrow> create_options
     \<Rightarrow> mamba_context \<Rightarrow> path set \<Rightarrow> state" where
  "final_state cmd w n g c c0 d0 = snd (invoke cmd w n g c c0 d0)"

section \<open>Example inputs\<close>

text \<open>
  A world in which nothing fails, every configured channel gives one URL and the prompt
  is answered with yes; variants with a declined prompt and with a solver that throws.
\<close>

definition quiet_world :: world where
  "quiet_world =
     \<lparr>calculate_channel_urls = (\<lambda>chs. chs),
      create_directories_fails = (\<lambda>p. None),
      throws = (\<lambda>e. False),
      prompt = (\<lambda>c. True)\<rparr>"

definition declining_world :: world where
  "declining_world = quiet_world\<lparr>prompt := (\<lambda>c. False)\<rparr>"

definition conflict_world :: world where
  "conflict_world = quiet_world\<lparr>throws := (\<lambda>e. e = Solve)\<rparr>"

definition no_ssl :: network_options where
  "no_ssl = \<lparr>ssl_verify_opt = False, cacert_path = []\<rparr>"

definition dry_run_options :: global_options where
  "dry_run_options = default_global_options\<lparr>dry_run_opt := True\<rparr>"

definition xtensor_options :: create_options where
  "xtensor_options =
     \<lparr>specs = [''xtensor''], prefix_opt = ''/opt/new'', name_opt = [],
      channels_opt = [''conda-forge'', ''defaults'']\<rparr>"

definition base_options :: create_options where
  "base_options = xtensor_options\<lparr>prefix_opt := ''/opt/mamba''\<rparr>"

definition mamba_env :: mamba_context where
  "mamba_env =
     \<lparr>root_prefix = [''/'', ''opt'', ''mamba''], target_prefix = [''/'', ''opt'', ''env''],
      channels = [], ssl_verify = [], verbosity = 0, quiet = False, json = False,
      always_yes = False, offline = False, dry_run = False\<rparr>"

definition env_disk :: "path set" where
  "env_disk = {[''/''], [''/'', ''opt''], [''/'', ''opt'', ''env'']}"

definition bare_disk :: "path set" where
  "bare_disk = {[''/''], [''/'', ''opt'']}"

section \<open>Lemmas about the loops of \<open>list_packages\<close>\<close>

lemma mm_insert_behind:
  assumes "\<forall>x \<in> set pre. fst x \<le> k"
  shows "mm_insert (k, v) (pre @ rest) = pre @ mm_insert (k, v) rest"
  using assms by (simp add: mm_insert_def takeWhile_append2 dropWhile_append2)

lemma mm_insert_front:
  assumes "rest = [] \<or> k < fst (hd rest)"
  shows "mm_insert (k, v) rest = (k, v) # rest"
  using assms by (cases rest) (auto simp: mm_insert_def)

lemma fold_mm_insert_behind:
  assumes "\<forall>x \<in> set pre. fst x \<le> k"
  shows "fold mm_insert (map (Pair k) vs) (pre @ rest)
     = pre @ fold mm_insert (map (Pair k) vs) rest"
  using assms by (induction vs arbitrary: rest) (simp_all add: mm_insert_behind)

lemma fold_mm_insert_front:
  assumes "rest = [] \<or> k < fst (hd rest)"
  shows "fold mm_insert (map (Pair k) vs) (map (Pair k) acc @ rest)
     = map (Pair k) (acc @ vs) @ rest"
proof (induction vs arbitrary: acc)
  case Nil
  show ?case by simp
next
  case (Cons v vs)
  have "mm_insert (k, v) (map (Pair k) acc @ rest) = map (Pair k) acc @ mm_insert (k, v) rest"
    by (rule mm_insert_behind) auto
  also have "mm_insert (k, v) rest = (k, v) # rest"
    using assms by (rule mm_insert_front)
  finally have "mm_insert (k, v) (map (Pair k) acc @ rest) = map (Pair k) (acc @ [v]) @ rest"
    by simp
  with Cons.IH [of "acc @ [v]"] show ?case by simp
qed

lemma entries_keys: "x \<in> set (entries sp p) \<Longrightarrow> fst x = name p"
  by (auto simp: entries_def)

lemma hd_concat_entries:
  "concat (map (entries sp) (q # qs)) \<noteq> [] \<and> fst (hd (concat (map (entries sp) (q # qs)))) = name q"
  by (simp add: entries_def table_row_def)

lemma fold_entries_insort:
  assumes "sorted (map name qs)" and "name p \<notin> name ` set qs"
  shows "fold mm_insert (entries sp p) (concat (map (entries sp) qs))
     = concat (map (entries sp) (insort_key name p qs))"
  using assms
proof (induction qs)
  case Nil
  have "fold mm_insert (map (Pair (name p)) (table_row sp p)) (map (Pair (name p)) [] @ [])
      = map (Pair (name p)) ([] @ table_row sp p) @ []"
    by (rule fold_mm_insert_front) simp
  then show ?case by (simp add: entries_def [of sp p])
next
  case (Cons q qs)
  from Cons.prems have ne: "name p \<noteq> name q" by auto
  show ?case
  proof (cases "name p \<le> name q")
    case True
    with ne have "name p < name q" by simp
    then have "concat (map (entries sp) (q # qs)) = [] \<or>
        name p < fst (hd (concat (map (entries sp) (q # qs))))"
      using hd_concat_entries [of sp q qs] by simp
    then have "fold mm_insert (map (Pair (name p)) (table_row sp p))
        (map (Pair (name p)) [] @ concat (map (entries sp) (q # qs)))
      = map (Pair (name p)) ([] @ table_row sp p) @ concat (map (entries sp) (q # qs))"
      by (rule fold_mm_insert_front)
    with True show ?thesis by (simp add: entries_def [of sp p])
  next
    case False
    then have "\<forall>x \<in> set (entries sp q). fst x \<le> name p"
      by (auto dest: entries_keys)
    then have "fold mm_insert (map (Pair (name p)) (table_row sp p))
        (entries sp q @ concat (map (entries sp) qs))
      = entries sp q @ fold mm_insert (map (Pair (name p)) (table_row sp p)) (concat (map (entries sp) qs))"
      by (rule fold_mm_insert_behind)
    moreover from Cons.prems have "sorted (map name qs)" "name p \<notin> name ` set qs"
      by simp_all
    ultimately show ?thesis
      using False Cons.IH by (simp add: entries_def [of sp p])
  qed
qed

lemma insert_package_entries:
  "insert_package sp p mm =
     (if channel_in_bounds sp p then Some (fold mm_insert (entries sp p) mm) else None)"
  by (simp add: insert_package_def channel_in_bounds_def entries_def table_row_def
      channel_column_def Let_def)

lemma fill_ordered_packages_sorted:
  assumes "\<forall>p \<in> set ps. channel_in_bounds sp p" and "distinct (map name (ps @ qs))"
    and "sorted (map name qs)"
  shows "fill_ordered_packages sp ps (concat (map (entries sp) qs))
     = Some (concat (map (entries sp) (fold (insort_key name) ps qs)))"
  using assms
proof (induction ps arbitrary: qs)
  case Nil
  show ?case by simp
next
  case (Cons p ps)
  from Cons.prems have p: "channel_in_bounds sp p" "name p \<notin> name ` set qs" by auto
  with Cons.prems(3) have
    "insert_package sp p (concat (map (entries sp) qs))
       = Some (concat (map (entries sp) (insort_key name p qs)))"
    by (simp add: insert_package_entries fold_entries_insort)
  moreover have "fill_ordered_packages sp ps (concat (map (entries sp) (insort_key name p qs)))
      = Some (concat (map (entries sp) (fold (insort_key name) ps (insort_key name p qs))))"
  proof (rule Cons.IH)
    show "\<forall>p \<in> set ps. channel_in_bounds sp p" using Cons.prems(1) by simp
    show "distinct (map name (ps @ insort_key name p qs))"
      using Cons.prems(2) by (auto simp: distinct_insort_key set_insort_key)
    show "sorted (map name (insort_key name p qs))"
      using Cons.prems(3) by (simp add: sorted_insort_key)
  qed
  ultimately show ?case by simp
qed

lemma fill_ordered_packages_out_of_bounds:
  assumes "\<exists>p \<in> set ps. \<not> channel_in_bounds sp p"
  shows "fill_ordered_packages sp ps mm = None"
  using assms
  by (induction ps arbitrary: mm) (auto simp: insert_package_entries)

lemma length_entries [simp]: "length (entries sp q) = 4"
  by (simp add: entries_def table_row_def)

lemma length_table_row [simp]: "length (table_row sp q) = 4"
  by (simp add: table_row_def)

lemma length_concat_entries [simp]: "length (concat (map (entries sp) qs)) = 4 * length qs"
  by (induction qs) (simp_all add: entries_def table_row_def)

lemma length_concat_rows [simp]: "length (concat (map (table_row sp) qs)) = 4 * length qs"
  by (induction qs) (simp_all add: table_row_def)

lemma equal_range_other:
  assumes "k \<notin> name ` set qs"
  shows "equal_range (concat (map (entries sp) qs)) k = []"
  using assms by (induction qs) (auto simp: equal_range_def filter_empty_conv dest: entries_keys)

lemma equal_range_entries:
  assumes "distinct (map name (qs1 @ q # qs2))"
  shows "equal_range (concat (map (entries sp) (qs1 @ q # qs2))) (name q) = entries sp q"
proof -
  from assms have "name q \<notin> name ` set qs1" "name q \<notin> name ` set qs2" by auto
  then have "equal_range (concat (map (entries sp) qs1)) (name q) = []"
    "equal_range (concat (map (entries sp) qs2)) (name q) = []"
    by (simp_all add: equal_range_other)
  moreover have "filter (\<lambda>x. fst x = name q) (entries sp q) = entries sp q"
    by (simp add: entries_def table_row_def)
  ultimately show ?thesis by (simp add: equal_range_def)
qed

lemma collect_aux_entries:
  assumes "distinct (map name (qs1 @ qs2))"
  shows "collect_aux (concat (map (entries sp) (qs1 @ qs2))) (length (concat (map (entries sp) qs1))) aux
     = Some (aux @ concat (map (table_row sp) qs2))"
  using assms
proof (induction qs2 arbitrary: qs1 aux)
  case Nil
  show ?case by (subst collect_aux.simps) simp
next
  case (Cons q qs2)
  let ?mm = "concat (map (entries sp) (qs1 @ q # qs2))"
  let ?it = "length (concat (map (entries sp) qs1))"
  have mm: "?mm = concat (map (entries sp) qs1) @ entries sp q @ concat (map (entries sp) qs2)" by simp
  have key: "fst (?mm ! ?it) = name q"
    unfolding mm by (simp add: nth_append entries_def table_row_def)
  have range: "equal_range ?mm (name q) = entries sp q"
    using Cons.prems by (rule equal_range_entries)
  have next_it: "?it + 4 = length (concat (map (entries sp) (qs1 @ [q])))" by simp
  have step: "collect_aux ?mm ?it aux =
      (if ?it < length ?mm then
         (if ?it + 4 \<le> length ?mm
          then collect_aux ?mm (?it + 4) (aux @ map snd (equal_range ?mm (fst (?mm ! ?it))))
          else None)
       else Some aux)"
    by (rule collect_aux.simps)
  have c: "?it < length ?mm" "?it + 4 \<le> length ?mm" by simp_all
  have "collect_aux ?mm ?it aux = collect_aux ?mm (?it + 4) (aux @ map snd (entries sp q))"
    using step by (simp only: c key range if_True)
  also have "\<dots> = collect_aux (concat (map (entries sp) ((qs1 @ [q]) @ qs2)))
      (length (concat (map (entries sp) (qs1 @ [q])))) (aux @ map snd (entries sp q))"
    unfolding next_it by simp
  also have "\<dots> = Some ((aux @ map snd (entries sp q)) @ concat (map (table_row sp) qs2))"
    by (rule Cons.IH) (use Cons.prems in simp)
  also have "map snd (entries sp q) = table_row sp q"
    by (simp add: entries_def comp_def)
  finally show ?case by simp
qed

text \<open>
  The comparison of the \<open>int\<close> counter with \<open>aux.size() - 4\<close> in \<open>size_t\<close>, where
  nothing wraps around.
\<close>

lemma size_t_less:
  assumes "y < 2 ^ 64" and "4 \<le> y" and "x \<le> y"
  shows "((word_of_int (int x) :: 64 word) < word_of_nat y - 4) = (x + 4 < y)"
proof -
  have "(word_of_nat y - 4 :: 64 word) = word_of_nat (y - 4)"
    using assms(2) by simp
  moreover have "word_of_int (int x) = (word_of_nat x :: 64 word)"
    by simp
  moreover have "take_bit 64 x = x" "take_bit 64 (y - 4) = y - 4"
    using assms by (simp_all add: take_bit_nat_eq_self)
  ultimately have "((word_of_int (int x) :: 64 word) < word_of_nat y - 4) = (x < y - 4)"
    by (simp add: word_of_nat_less_iff)
  then show ?thesis using assms(2) by auto
qed

lemma add_rows_rows:
  assumes "qs2 \<noteq> []" and "4 * length (qs1 @ qs2) < 2 ^ 64"
  shows "add_rows (concat (map (table_row sp) (qs1 @ qs2))) (int (4 * length qs1)) t
     = Some (t @ map (table_row sp) (butlast qs2))"
  using assms
proof (induction qs2 arbitrary: qs1 t)
  case Nil
  then show ?case by simp
next
  case (Cons q qs2)
  let ?aux = "concat (map (table_row sp) (qs1 @ q # qs2))"
  let ?j = "4 * length qs1"
  have len: "length ?aux = 4 * length qs1 + 4 + 4 * length qs2" by simp
  have cond: "((word_of_int (int ?j) :: 64 word) < word_of_nat (length ?aux) - 4)
      = (?j + 4 < length ?aux)"
    by (rule size_t_less) (use Cons.prems in simp_all)
  have step: "add_rows ?aux (int ?j) t =
      (if (word_of_int (int ?j) :: 64 word) < word_of_nat (length ?aux) - 4 then
         (if 0 \<le> int ?j \<and> nat (int ?j) + 3 < length ?aux
          then add_rows ?aux (int ?j + 4)
                 (t @ [[?aux ! nat (int ?j), ?aux ! (nat (int ?j) + 1),
                        ?aux ! (nat (int ?j) + 2), ?aux ! (nat (int ?j) + 3)]])
          else None)
       else Some t)"
    by (rule add_rows.simps)
  show ?case
  proof (cases qs2)
    case Nil
    with cond len have "\<not> (word_of_int (int ?j) :: 64 word) < word_of_nat (length ?aux) - 4"
      by simp
    with step have "add_rows ?aux (int ?j) t = Some t"
      by (simp only: if_False)
    with Nil show ?thesis by simp
  next
    case (Cons q' qs3)
    with cond len have c: "(word_of_int (int ?j) :: 64 word) < word_of_nat (length ?aux) - 4"
      by simp
    have inb: "0 \<le> int ?j \<and> nat (int ?j) + 3 < length ?aux"
      using len by simp
    have aux: "?aux = concat (map (table_row sp) qs1) @ table_row sp q @ concat (map (table_row sp) qs2)"
      by simp
    have row: "[?aux ! nat (int ?j), ?aux ! (nat (int ?j) + 1),
        ?aux ! (nat (int ?j) + 2), ?aux ! (nat (int ?j) + 3)] = table_row sp q"
      unfolding aux nat_int by (simp add: nth_append table_row_def)
    have "add_rows ?aux (int ?j) t = add_rows ?aux (int ?j + 4) (t @ [table_row sp q])"
      using step c inb row by (simp only: if_True simp_thms)
    also have "int ?j + 4 = int (4 * length (qs1 @ [q]))" by simp
    also have "?aux = concat (map (table_row sp) ((qs1 @ [q]) @ qs2))" by simp
    also have "add_rows (concat (map (table_row sp) ((qs1 @ [q]) @ qs2)))
        (int (4 * length (qs1 @ [q]))) (t @ [table_row sp q])
      = Some ((t @ [table_row sp q]) @ map (table_row sp) (butlast qs2))"
      by (rule Cons.IH) (use Cons Cons.prems in simp_all)
    finally show ?thesis using Cons by simp
  qed
qed


text \<open>
  What \<open>list_packages\<close> prints for a snapshot that is not empty, whose packages have
  different names (they are the keys of the snapshot) and channels with a fourth part:
  the rows of the packages in the order of their names, without the last one.
\<close>

lemma list_packages_rows:
  assumes "ps \<noteq> []" and "distinct (map name ps)" and "\<forall>p \<in> set ps. channel_in_bounds sp p"
    and "4 * length ps < 2 ^ 64"
  shows "list_packages sp ps = Some (map (table_row sp) (butlast (sort_key name ps)))"
proof -
  let ?qs = "sort_key name ps"
  from assms(2) have "inj_on name (set ps)" by (simp add: distinct_map)
  then have qs: "fold (insort_key name) ps [] = ?qs" by (simp add: sort_key_conv_fold)
  have "fill_ordered_packages sp ps (concat (map (entries sp) [])) =
      Some (concat (map (entries sp) (fold (insort_key name) ps [])))"
    by (rule fill_ordered_packages_sorted) (use assms in simp_all)
  with qs have fill: "fill_ordered_packages sp ps [] = Some (concat (map (entries sp) ?qs))" by simp
  have dist: "distinct (map name ?qs)" using assms(2) by (simp add: distinct_map)
  have "collect_aux (concat (map (entries sp) ([] @ ?qs))) (length (concat (map (entries sp) []))) []
      = Some ([] @ concat (map (table_row sp) ?qs))"
    by (rule collect_aux_entries) (use dist in simp)
  then have coll:
    "collect_aux (concat (map (entries sp) ?qs)) 0 [] = Some (concat (map (table_row sp) ?qs))"
    by simp
  have "?qs \<noteq> []"
  proof
    assume "?qs = []"
    then have "length (sort_key name ps) = 0" by (simp only: list.size)
    then have "length ps = 0" by (simp only: length_sort)
    with assms(1) show False by simp
  qed
  then have "add_rows (concat (map (table_row sp) ([] @ ?qs)))
        (int (4 * length ([] :: package_info list))) []
      = Some ([] @ map (table_row sp) (butlast ?qs))"
    by (rule add_rows_rows) (use assms(4) in simp)
  then have rows:
    "add_rows (concat (map (table_row sp) ?qs)) 0 [] = Some (map (table_row sp) (butlast ?qs))"
    by simp
  show ?thesis
    by (simp only: list_packages_def fill coll rows option.case)
qed

text \<open>
  When an access of \<open>list_packages\<close> is out of bounds: exactly for the empty snapshot
  and for a snapshot with a channel that has no fourth part.
\<close>

lemma list_packages_out_of_bounds_iff:
  assumes "distinct (map name ps)" and "4 * length ps < 2 ^ 64"
  shows "list_packages sp ps = None
     \<longleftrightarrow> ps = [] \<or> (\<exists>p \<in> set ps. \<not> channel_in_bounds sp p)"
proof (cases "ps = [] \<or> (\<exists>p \<in> set ps. \<not> channel_in_bounds sp p)")
  case True
  then show ?thesis
  proof
    assume "ps = []"
    then show ?thesis
      by (simp add: list_packages_def collect_aux.simps add_rows.simps word_less_nat_alt)
  next
    assume b: "\<exists>p \<in> set ps. \<not> channel_in_bounds sp p"
    then have "fill_ordered_packages sp ps [] = None"
      by (rule fill_ordered_packages_out_of_bounds)
    then have "list_packages sp ps = None" by (simp only: list_packages_def option.case)
    with b show ?thesis by simp
  qed
next
  case False
  then have "list_packages sp ps = Some (map (table_row sp) (butlast (sort_key name ps)))"
    using assms by (intro list_packages_rows) auto
  with False show ?thesis by (simp only: option.distinct simp_thms)
qed

section \<open>Lemmas about the steps of a run\<close>

lemma emit_fields [simp]:
  "ctx (emit e s) = ctx s" "disk (emit e s) = disk s" "repos (emit e s) = repos s"
  "trace (emit e s) = trace s @ [e]"
  by (simp_all add: emit_def)

lemma calls_result:
  "calls w es s = (ok, s') \<Longrightarrow>
     ctx s' = ctx s \<and> disk s' = disk s \<and> repos s' = repos s \<and>
     (\<exists>es'. trace s' = trace s @ es' \<and> set es' \<subseteq> set es \<and> (ok \<longrightarrow> es' = es))"
proof (induction es arbitrary: s)
  case Nil
  then show ?case by simp
next
  case (Cons e es)
  show ?case
  proof (cases "throws w e")
    case True
    with Cons.prems have "s' = emit e s" "\<not> ok" by (auto simp: call_def)
    then show ?thesis by simp
  next
    case False
    with Cons.prems have "calls w es (emit e s) = (ok, s')" by (simp add: call_def)
    from Cons.IH [OF this] obtain es' where
      "ctx s' = ctx s" "disk s' = disk s" "repos s' = repos s"
      "trace s' = trace s @ e # es'" "set es' \<subseteq> set es" "ok \<longrightarrow> es' = es"
      by auto
    then show ?thesis by auto
  qed
qed

lemma load_subdirs_result:
  "load_subdirs w urls acc s = (r, s') \<Longrightarrow>
     ctx s' = ctx s \<and> disk s' = disk s \<and> repos s' = repos s \<and>
     (\<exists>es. trace s' = trace s @ es \<and> set es \<subseteq> Subdir_load ` set urls) \<and>
     (\<forall>subdirs. r = Some subdirs \<longrightarrow> subdirs = acc @ urls)"
proof (induction urls arbitrary: acc s)
  case Nil
  then show ?case by auto
next
  case (Cons u urls)
  show ?case
  proof (cases "throws w (Subdir_load u)")
    case True
    with Cons.prems have "s' = emit (Subdir_load u) s" "r = None" by (auto simp: call_def)
    then show ?thesis by simp
  next
    case False
    with Cons.prems have "load_subdirs w urls (acc @ [u]) (emit (Subdir_load u) s) = (r, s')"
      by (simp add: call_def)
    from Cons.IH [OF this] obtain es where
      "ctx s' = ctx s" "disk s' = disk s" "repos s' = repos s"
      "trace s' = trace s @ Subdir_load u # es" "set es \<subseteq> Subdir_load ` set urls"
      "\<forall>subdirs. r = Some subdirs \<longrightarrow> subdirs = acc @ u # urls"
      by auto
    then show ?thesis by auto
  qed
qed


lemma lib_steps_refl: "lib_steps P s s"
  by (simp add: lib_steps_def)

lemma lib_steps_trans: "lib_steps P s t \<Longrightarrow> lib_steps P t u \<Longrightarrow> lib_steps P s u"
  by (fastforce simp: lib_steps_def)

lemma lib_steps_emit: "P e \<Longrightarrow> lib_steps P s t \<Longrightarrow> lib_steps P s (emit e t)"
  by (auto simp: lib_steps_def)

lemma lib_steps_repos: "lib_steps P (s\<lparr>repos := r\<rparr>) t \<Longrightarrow> lib_steps P s t"
  by (simp add: lib_steps_def)

lemma lib_steps_calls:
  "calls w es s = (ok, s') \<Longrightarrow> \<forall>e \<in> set es. P e \<Longrightarrow> lib_steps P s s'"
  using calls_result [of w es s ok s'] by (auto simp: lib_steps_def)

lemma lib_steps_load_subdirs:
  "load_subdirs w urls acc s = (r, s') \<Longrightarrow> lib_steps fetch_event s s'"
  using load_subdirs_result [of w urls acc s r s'] by (fastforce simp: lib_steps_def)

lemma create_repos_result:
  "create_repos w subdirs (n - int k) s = (ok, s') \<Longrightarrow>
     lib_steps fetch_event s s' \<and>
     (ok \<longrightarrow> repos s' = repos s @
        map (\<lambda>(i, u). \<lparr>source = Channel u, priority = n - int i, subpriority = 0\<rparr>)
          (enumerate k subdirs))"
proof (induction subdirs arbitrary: k s)
  case Nil
  then show ?case by (simp add: lib_steps_refl)
next
  case (Cons u subdirs)
  let ?s1 = "emit (Create_repo u) s"
  let ?s2 = "emit (Set_priority u (n - int k) 0) ?s1"
  have s1: "lib_steps fetch_event s ?s1"
    by (simp add: lib_steps_emit lib_steps_refl)
  then have s2: "lib_steps fetch_event s ?s2"
    by (simp add: lib_steps_emit)
  show ?case
  proof (cases "throws w (Create_repo u)")
    case True
    with Cons.prems have "s' = ?s1" "\<not> ok" by (auto simp: call_def)
    with s1 show ?thesis by simp
  next
    case c1: False
    show ?thesis
    proof (cases "throws w (Set_priority u (n - int k) 0)")
      case True
      with c1 Cons.prems have "s' = ?s2" "\<not> ok" by (auto simp: call_def)
      with s2 show ?thesis by simp
    next
      case False
      let ?s3 = "?s2\<lparr>repos := repos ?s2 @
               [\<lparr>source = Channel u, priority = n - int k, subpriority = 0\<rparr>]\<rparr>"
      have eq: "n - int k - 1 = n - int (Suc k)" by simp
      from False c1 Cons.prems have "create_repos w subdirs (n - int (Suc k)) ?s3 = (ok, s')"
        by (simp add: call_def eq del: of_nat_Suc)
      from Cons.IH [OF this] have
        st: "lib_steps fetch_event ?s3 s'" and
        rp: "ok \<longrightarrow> repos s' = repos ?s3 @
          map (\<lambda>(i, u). \<lparr>source = Channel u, priority = n - int i, subpriority = 0\<rparr>)
            (enumerate (Suc k) subdirs)"
        by simp_all
      from st have "lib_steps fetch_event ?s2 s'" by (rule lib_steps_repos)
      with s2 have "lib_steps fetch_event s s'" by (rule lib_steps_trans)
      with rp show ?thesis by simp
    qed
  qed
qed

lemma create_directories_result:
  "create_directories w p s = (ok, s') \<Longrightarrow>
     ctx s' = ctx s \<and> repos s' = repos s \<and> trace s' = trace s @ [Create_directories p] \<and>
     disk s \<subseteq> disk s' \<and> disk s' \<subseteq> disk s \<union> set (dir_chain p)"
  by (auto simp: create_directories_def Let_def split: option.splits dest: in_set_takeD)


lemma execute_transaction_result:
  assumes "execute_transaction w create_env s = (out, s')"
  shows "ctx s' = ctx s \<and> repos s' = repos s \<and> disk s \<subseteq> disk s' \<and>
     (\<exists>es. trace s' = trace s @ es \<and>
        (\<forall>e \<in> set es. e = Execute \<or> (\<exists>p. e = Create_directories p)) \<and>
        (dry_run (ctx s) \<or> \<not> create_env \<longrightarrow> es = [Execute] \<and> disk s' = disk s))"
proof (cases "create_env \<and> \<not> dry_run (ctx s)")
  case False
  with assms have "s' = emit Execute s"
    by (auto simp: execute_transaction_def or_abort_def call_def split: if_splits bool.splits)
  with False show ?thesis by auto
next
  case True
  let ?t = "target_prefix (ctx s)"
  obtain ok1 s1 where c1: "create_directories w ?t s = (ok1, s1)" by fastforce
  note r1 = create_directories_result [OF c1]
  obtain ok2 s2 where c2: "create_directories w (path_append ?t ''conda-meta'') s1 = (ok2, s2)"
    by fastforce
  note r2 = create_directories_result [OF c2]
  obtain ok3 s3 where c3: "create_directories w (path_append ?t ''pkgs'') s2 = (ok3, s3)"
    by fastforce
  note r3 = create_directories_result [OF c3]
  have d: "disk s \<subseteq> disk s1" "disk s \<subseteq> disk s2" "disk s \<subseteq> disk s3"
    using r1 r2 r3 by blast+
  have t: "trace s1 = trace s @ [Create_directories ?t]"
    "trace s2 = trace s @ [Create_directories ?t,
       Create_directories (path_append ?t ''conda-meta'')]"
    "trace s3 = trace s @ [Create_directories ?t,
       Create_directories (path_append ?t ''conda-meta''),
       Create_directories (path_append ?t ''pkgs'')]"
    using r1 r2 r3 by simp_all
  have c: "ctx s1 = ctx s" "ctx s2 = ctx s" "ctx s3 = ctx s"
    "repos s1 = repos s" "repos s2 = repos s" "repos s3 = repos s"
    using r1 r2 r3 by simp_all
  from assms True c1 c2 c3 c have
    "s' = s1 \<or> s' = s2 \<or> s' = s3 \<or> s' = emit Execute s3"
    by (auto simp: execute_transaction_def or_abort_def call_def split: if_splits bool.splits)
  then show ?thesis
    using True d t c by (elim disjE) simp_all
qed

lemma prompt_transaction_result:
  assumes "prompt_transaction w create_env s = (out, s')"
  shows "ctx s' = ctx s \<and> repos s' = repos s \<and> disk s \<subseteq> disk s' \<and>
     (\<exists>es. trace s' = trace s @ [Print Newline, Prompt (prompt w (ctx s))] @ es \<and>
        (\<forall>e \<in> set es. e = Execute \<or> (\<exists>p. e = Create_directories p)) \<and>
        (\<not> prompt w (ctx s) \<longrightarrow> es = [] \<and> out = Exit 0 \<and> disk s' = disk s) \<and>
        (prompt w (ctx s) \<and> (dry_run (ctx s) \<or> \<not> create_env)
           \<longrightarrow> es = [Execute] \<and> disk s' = disk s))"
proof (cases "prompt w (ctx s)")
  case False
  with assms show ?thesis by (auto simp: prompt_transaction_def Let_def)
next
  case True
  let ?s2 = "emit (Prompt True) (emit (Print Newline) s)"
  from assms True have "execute_transaction w create_env ?s2 = (out, s')"
    by (simp add: prompt_transaction_def Let_def)
  from execute_transaction_result [OF this] True show ?thesis by auto
qed

lemma solve_and_plan_result:
  assumes "solve_and_plan w c create_env s = (out, s')"
  shows "lib_steps solver_event s s' \<and> repos s' = repos s \<or>
     (\<exists>sp. lib_steps solver_event s sp \<and> Solve \<in> set (trace sp) \<and> repos sp = repos s \<and>
        prompt_transaction w create_env sp = (out, s'))"
proof -
  let ?es = "[Solver_create [(SOLVER_FLAG_ALLOW_DOWNGRADE, 1)],
           Add_jobs (specs c) SOLVER_INSTALL, Solve,
           Package_caches (path_append (root_prefix (ctx s)) ''pkgs''),
           Transaction_create]"
  obtain ok1 s1 where c1: "calls w ?es s = (ok1, s1)" by fastforce
  have st1: "lib_steps solver_event s s1"
    by (rule lib_steps_calls [OF c1]) simp
  note r1 = calls_result [OF c1]
  show ?thesis
  proof (cases ok1)
    case False
    with assms c1 have "s' = s1" by (simp add: solve_and_plan_def or_abort_def)
    with st1 r1 show ?thesis by simp
  next
    case ok: True
    with r1 have solve: "Solve \<in> set (trace s1)" by auto
    show ?thesis
    proof (cases "json (ctx s1)")
      case False
      with assms c1 ok have "prompt_transaction w create_env s1 = (out, s')"
        by (simp add: solve_and_plan_def or_abort_def)
      with st1 r1 solve show ?thesis by blast
    next
      case True
      let ?s2 = "emit Log_json s1"
      have st2: "lib_steps solver_event s ?s2"
        by (rule lib_steps_emit [OF _ st1]) simp
      show ?thesis
      proof (cases "throws w Log_json")
        case True
        with assms c1 ok \<open>json (ctx s1)\<close> have "s' = ?s2"
          by (simp add: solve_and_plan_def or_abort_def call_def)
        with st2 r1 show ?thesis by simp
      next
        case False
        with assms c1 ok \<open>json (ctx s1)\<close> have "prompt_transaction w create_env ?s2 = (out, s')"
          by (simp add: solve_and_plan_def or_abort_def call_def)
        moreover have "Solve \<in> set (trace ?s2)" "repos ?s2 = repos s"
          using solve r1 by simp_all
        ultimately show ?thesis using st2 by blast
      qed
    qed
  qed
qed


lemma register_repos_result:
  assumes "register_repos w c create_env subdirs s = (out, s')"
  shows "lib_steps fetch_event s s' \<or>
     (\<exists>sr. lib_steps fetch_event s sr \<and>
        Prefix_load (target_prefix (ctx s)) \<in> set (trace sr) \<and>
        Repo_installed \<in> set (trace sr) \<and> repos sr = pool_repos subdirs \<and>
        solve_and_plan w c create_env sr = (out, s'))"
proof -
  let ?es = "[Prefix_load (target_prefix (ctx s)), Repo_installed]"
  obtain ok1 s1 where c1: "calls w ?es (s\<lparr>repos := []\<rparr>) = (ok1, s1)" by fastforce
  have "lib_steps fetch_event (s\<lparr>repos := []\<rparr>) s1"
    by (rule lib_steps_calls [OF c1]) simp
  then have st1: "lib_steps fetch_event s s1" by (rule lib_steps_repos)
  note r1 = calls_result [OF c1]
  show ?thesis
  proof (cases ok1)
    case False
    with assms c1 have "s' = s1" by (simp add: register_repos_def or_abort_def)
    with st1 show ?thesis by simp
  next
    case ok: True
    let ?s2 = "s1\<lparr>repos := repos s1 @
                  [\<lparr>source = Installed, priority = fst new_repo_priority,
                    subpriority = snd new_repo_priority\<rparr>]\<rparr>"
    obtain ok2 sr where
      c2: "create_repos w subdirs (int (length subdirs) - int 0) ?s2 = (ok2, sr)"
      by fastforce
    note r2 = create_repos_result [OF c2]
    from r2 have "lib_steps fetch_event s1 sr" using lib_steps_repos by blast
    with st1 have st2: "lib_steps fetch_event s sr" by (rule lib_steps_trans)
    show ?thesis
    proof (cases ok2)
      case False
      with assms c1 c2 ok have "s' = sr" by (simp add: register_repos_def or_abort_def)
      with st2 show ?thesis by simp
    next
      case True
      with assms c1 c2 ok have "solve_and_plan w c create_env sr = (out, s')"
        by (simp add: register_repos_def or_abort_def)
      moreover from ok r1 have "trace s1 = trace s @ ?es" by simp
      with r2 have "Prefix_load (target_prefix (ctx s)) \<in> set (trace sr)"
        "Repo_installed \<in> set (trace sr)"
        by (auto simp: lib_steps_def)
      moreover from True r1 r2 have "repos sr = pool_repos subdirs"
        by (simp add: pool_repos_def)
      ultimately show ?thesis using st2 by blast
    qed
  qed
qed

lemma fetch_repodata_result:
  assumes "fetch_repodata w c create_env s = (out, s')"
  shows "lib_steps fetch_event s s' \<or>
     (\<exists>sr. lib_steps fetch_event s sr \<and> at_solver w sr \<and>
        solve_and_plan w c create_env sr = (out, s'))"
proof -
  let ?urls = "calculate_channel_urls w (channels (ctx s))"
  obtain r s1 where c1: "load_subdirs w ?urls [] s = (r, s1)" by fastforce
  note st1 = lib_steps_load_subdirs [OF c1]
  note r1 = load_subdirs_result [OF c1]
  show ?thesis
  proof (cases r)
    case None
    with assms c1 have "s' = s1" by (simp add: fetch_repodata_def)
    with st1 show ?thesis by simp
  next
    case (Some subdirs)
    with r1 have subdirs: "subdirs = ?urls" by simp
    let ?s2 = "emit (Download subdirs) s1"
    have st2: "lib_steps fetch_event s ?s2"
      by (rule lib_steps_emit [OF _ st1]) simp
    show ?thesis
    proof (cases "throws w (Download subdirs)")
      case True
      with assms c1 Some have "s' = ?s2"
        by (simp add: fetch_repodata_def or_abort_def call_def)
      with st2 show ?thesis by simp
    next
      case False
      with assms c1 Some have "register_repos w c create_env subdirs ?s2 = (out, s')"
        by (simp add: fetch_repodata_def or_abort_def call_def)
      from register_repos_result [OF this] show ?thesis
      proof
        assume "lib_steps fetch_event ?s2 s'"
        with st2 show ?thesis using lib_steps_trans by blast
      next
        assume "\<exists>sr. lib_steps fetch_event ?s2 sr \<and>
          Prefix_load (target_prefix (ctx ?s2)) \<in> set (trace sr) \<and>
          Repo_installed \<in> set (trace sr) \<and> repos sr = pool_repos subdirs \<and>
          solve_and_plan w c create_env sr = (out, s')"
        then obtain sr where sr: "lib_steps fetch_event ?s2 sr"
          "Prefix_load (target_prefix (ctx ?s2)) \<in> set (trace sr)"
          "Repo_installed \<in> set (trace sr)" "repos sr = pool_repos subdirs"
          "solve_and_plan w c create_env sr = (out, s')"
          by blast
        from sr(1) st2 have st: "lib_steps fetch_event s sr" using lib_steps_trans by blast
        then have "ctx sr = ctx s" by (simp add: lib_steps_def)
        moreover from st1 have "ctx s1 = ctx s" by (simp add: lib_steps_def)
        ultimately have "at_solver w sr" using sr subdirs by (simp add: at_solver_def)
        with st sr(5) show ?thesis by blast
      qed
    qed
  qed
qed


lemma early_steps_lib:
  "early_steps s t \<Longrightarrow> lib_steps fetch_event t u \<Longrightarrow> early_steps s u"
  by (fastforce simp: early_steps_def lib_steps_def)

lemma early_steps_emit: "fetch_event e \<Longrightarrow> early_steps s t \<Longrightarrow> early_steps s (emit e t)"
  by (auto simp: early_steps_def)

lemma early_steps_refl: "early_steps s s"
  by (simp add: early_steps_def)

lemma set_global_options_fields [simp]:
  "disk (set_global_options g s) = disk s" "trace (set_global_options g s) = trace s"
  "repos (set_global_options g s) = repos s"
  "root_prefix (ctx (set_global_options g s)) = root_prefix (ctx s)"
  "target_prefix (ctx (set_global_options g s)) = target_prefix (ctx s)"
  "channels (ctx (set_global_options g s)) = channels (ctx s)"
  "dry_run (ctx (set_global_options g s)) = dry_run_opt g"
  by (simp_all add: set_global_options_def)

lemma install_specs_result:
  assumes "install_specs w g c specs_arg create_env s = (out, s')"
  shows "early_steps (set_global_options g s) s' \<or>
     (\<exists>sr. early_steps (set_global_options g s) sr \<and> at_solver w sr \<and>
        solve_and_plan w c create_env sr = (out, s'))"
proof -
  let ?s0 = "set_global_options g s"
  let ?s1 = "emit (Print Banner) ?s0"
  have st1: "early_steps ?s0 ?s1"
    by (rule early_steps_emit [OF _ early_steps_refl]) simp
  have exit: "early_steps ?s0 (emit (Print m) ?s1)" for m
    by (rule early_steps_emit [OF _ st1]) simp
  show ?thesis
  proof (cases "root_prefix (ctx ?s1) = [] \<or> target_prefix (ctx ?s1) = [] \<or>
      \<not> fs_exists ?s1 (target_prefix (ctx ?s1)) \<and> create_env = False")
    case True
    with assms have "\<exists>m. s' = emit (Print m) ?s1"
      by (auto simp: install_specs_def Let_def split: if_splits)
    with exit show ?thesis by auto
  next
    case False
    obtain ok2 s2 where c2: "create_directories w (cache_dir (ctx ?s1)) ?s1 = (ok2, s2)"
      by fastforce
    note r2 = create_directories_result [OF c2]
    have st2: "early_steps ?s0 s2"
      using r2 by (auto simp: early_steps_def)
    show ?thesis
    proof (cases ok2)
      case False
      with assms c2 \<open>\<not> (root_prefix (ctx ?s1) = [] \<or> _)\<close>
      have "s' = emit (Print Could_not_create_cache_dirs) s2"
        by (auto simp: install_specs_def Let_def cache_dir_def)
      with st2 r2 show ?thesis by (auto simp: early_steps_emit)
    next
      case True
      with assms c2 False have f: "fetch_repodata w c create_env s2 = (out, s')"
        by (auto simp: install_specs_def Let_def cache_dir_def)
      from fetch_repodata_result [OF f] show ?thesis
      proof
        assume a: "lib_steps fetch_event s2 s'"
        with st2 show ?thesis using early_steps_lib by blast
      next
        assume "\<exists>sr. lib_steps fetch_event s2 sr \<and> at_solver w sr \<and>
          solve_and_plan w c create_env sr = (out, s')"
        with st2 show ?thesis using early_steps_lib by blast
      qed
    qed
  qed
qed


lemma plan_steps_early: "early_steps s t \<Longrightarrow> plan_steps s t"
  by (auto simp: early_steps_def plan_steps_def)

lemma plan_steps_lib:
  "early_steps s t \<Longrightarrow> lib_steps solver_event t u \<Longrightarrow> plan_steps s u"
  by (fastforce simp: early_steps_def plan_steps_def lib_steps_def)

lemma install_specs_to_prompt:
  assumes "install_specs w g c specs_arg create_env s = (out, s')"
  shows "plan_steps (set_global_options g s) s' \<or>
     (\<exists>sp. plan_steps (set_global_options g s) sp \<and>
        prompt_transaction w create_env sp = (out, s'))"
  using install_specs_result [OF assms]
proof
  assume "early_steps (set_global_options g s) s'"
  then show ?thesis by (simp add: plan_steps_early)
next
  assume "\<exists>sr. early_steps (set_global_options g s) sr \<and> at_solver w sr \<and>
    solve_and_plan w c create_env sr = (out, s')"
  then obtain sr where sr: "early_steps (set_global_options g s) sr"
    "solve_and_plan w c create_env sr = (out, s')"
    by blast
  from solve_and_plan_result [OF sr(2)] sr(1) show ?thesis
    using plan_steps_lib by blast
qed

lemma install_specs_solved:
  assumes "install_specs w g c specs_arg create_env s = (out, s')"
    and "Solve \<in> set (trace s')" and "Solve \<notin> set (trace s)"
  shows "\<exists>sr. early_steps (set_global_options g s) sr \<and> at_solver w sr \<and>
     prefix (trace sr) (trace s') \<and> repos s' = repos sr \<and> ctx s' = ctx sr"
  using install_specs_result [OF assms(1)]
proof
  assume "early_steps (set_global_options g s) s'"
  then obtain es where "trace s' = trace s @ es"
    "\<forall>e \<in> set es. fetch_event e \<or>
       e = Create_directories (cache_dir (ctx (set_global_options g s)))"
    by (auto simp: early_steps_def)
  with assms(2,3) have "fetch_event Solve \<or>
      Solve = Create_directories (cache_dir (ctx (set_global_options g s)))"
    by auto
  then show ?thesis by simp
next
  assume "\<exists>sr. early_steps (set_global_options g s) sr \<and> at_solver w sr \<and>
    solve_and_plan w c create_env sr = (out, s')"
  then obtain sr where sr: "early_steps (set_global_options g s) sr" "at_solver w sr"
    "solve_and_plan w c create_env sr = (out, s')"
    by blast
  from solve_and_plan_result [OF sr(3)] have "prefix (trace sr) (trace s') \<and> repos s' = repos sr \<and> ctx s' = ctx sr"
  proof
    assume "lib_steps solver_event sr s' \<and> repos s' = repos sr"
    then show ?thesis by (auto simp: lib_steps_def)
  next
    assume "\<exists>sp. lib_steps solver_event sr sp \<and> Solve \<in> set (trace sp) \<and>
      repos sp = repos sr \<and> prompt_transaction w create_env sp = (out, s')"
    then obtain sp where sp: "lib_steps solver_event sr sp" "repos sp = repos sr"
      "prompt_transaction w create_env sp = (out, s')"
      by blast
    from prompt_transaction_result [OF sp(3)] sp(1,2) show ?thesis
      by (auto simp: lib_steps_def)
  qed
  with sr show ?thesis by blast
qed

lemma set_ssl_verify_fields [simp]:
  "disk (set_ssl_verify v s) = disk s" "trace (set_ssl_verify v s) = trace s"
  "repos (set_ssl_verify v s) = repos s"
  "root_prefix (ctx (set_ssl_verify v s)) = root_prefix (ctx s)"
  "target_prefix (ctx (set_ssl_verify v s)) = target_prefix (ctx s)"
  "ssl_verify (ctx (set_ssl_verify v s)) = v"
  by (simp_all add: set_ssl_verify_def)

lemma cert_fold_fields:
  "disk (fold (\<lambda>loc t. if fs_exists t (path_of_string loc) then set_ssl_verify loc t else t)
           locs s) = disk s \<and>
   trace (fold (\<lambda>loc t. if fs_exists t (path_of_string loc) then set_ssl_verify loc t else t)
           locs s) = trace s \<and>
   root_prefix (ctx (fold (\<lambda>loc t. if fs_exists t (path_of_string loc)
           then set_ssl_verify loc t else t) locs s)) = root_prefix (ctx s) \<and>
   target_prefix (ctx (fold (\<lambda>loc t. if fs_exists t (path_of_string loc)
           then set_ssl_verify loc t else t) locs s)) = target_prefix (ctx s)"
  by (induction locs arbitrary: s) simp_all

lemma set_network_options_fields:
  "disk (set_network_options n s) = disk s"
  "set (trace (set_network_options n s)) \<subseteq> set (trace s) \<union> {Log_warning}"
  "root_prefix (ctx (set_network_options n s)) = root_prefix (ctx s)"
  "target_prefix (ctx (set_network_options n s)) = target_prefix (ctx s)"
  using cert_fold_fields [of cert_locations s]
  by (auto simp: set_network_options_def Let_def)

lemma set_channels_fields [simp]:
  "disk (set_channels c s) = disk s" "trace (set_channels c s) = trace s"
  "root_prefix (ctx (set_channels c s)) = root_prefix (ctx s)"
  "target_prefix (ctx (set_channels c s)) = target_prefix (ctx s)"
  "channels (ctx (set_channels c s)) = channels_opt c"
  by (simp_all add: set_channels_def)

lemma invoke_cases:
  assumes "invoke cmd w n g c c0 d0 = (out, s')"
  shows "\<exists>s. disk s = d0 \<and> set (trace s) \<subseteq> {Log_warning} \<and>
     root_prefix (ctx s) = root_prefix c0 \<and> channels (ctx s) = channels_opt c \<and>
     (cmd = Create \<and> out = Exit 1 \<and> s' = emit (Print Prefix_already_exists) s \<or>
      install_specs w g c (specs c) (cmd = Create) s = (out, s'))"
proof (cases cmd)
  case Install
  let ?s = "set_channels c (set_network_options n (start c0 d0))"
  have "disk ?s = d0" "set (trace ?s) \<subseteq> {Log_warning}"
    "root_prefix (ctx ?s) = root_prefix c0" "channels (ctx ?s) = channels_opt c"
    using set_network_options_fields [of n "start c0 d0"] by (simp_all add: start_def)
  moreover from assms Install have "install_specs w g c (specs c) (cmd = Create) ?s = (out, s')"
    by (simp add: invoke_def install_callback_def)
  ultimately show ?thesis by blast
next
  case Create
  let ?s1 = "(start c0 d0)\<lparr>ctx := (ctx (start c0 d0))\<lparr>target_prefix :=
      path_of_string (prefix_opt c)\<rparr>\<rparr>"
  let ?s = "set_channels c (set_network_options n ?s1)"
  have f: "disk ?s = d0" "set (trace ?s) \<subseteq> {Log_warning}"
    "root_prefix (ctx ?s) = root_prefix c0" "channels (ctx ?s) = channels_opt c"
    using set_network_options_fields [of n ?s1] by (simp_all add: start_def)
  from assms Create have
    "out = Exit 1 \<and> s' = emit (Print Prefix_already_exists) ?s \<or>
     install_specs w g c (specs c) (cmd = Create) ?s = (out, s')"
    by (auto simp: invoke_def create_callback_def Let_def split: if_splits)
  with f Create show ?thesis by blast
qed

lemma invoke_summary:
  assumes "invoke cmd w n g c c0 d0 = (out, s')"
  shows "\<exists>pre post. trace s' = pre @ post \<and> d0 \<subseteq> disk s' \<and>
     root_prefix (ctx s') = root_prefix c0 \<and>
     (\<forall>e \<in> set pre. fetch_event e \<or> solver_event e \<or>
        e = Create_directories (cache_dir (ctx s'))) \<and>
     (post = [] \<and> disk s' \<subseteq> d0 \<union> set (dir_chain (cache_dir (ctx s'))) \<or>
      post = [Prompt False] \<and> out = Exit 0 \<and>
        disk s' \<subseteq> d0 \<union> set (dir_chain (cache_dir (ctx s'))) \<or>
      (\<exists>es. post = Prompt True # es \<and>
         (\<forall>e \<in> set es. e = Execute \<or> (\<exists>p. e = Create_directories p)) \<and>
         (dry_run_opt g \<or> cmd = Install
            \<longrightarrow> es = [Execute] \<and> disk s' \<subseteq> d0 \<union> set (dir_chain (cache_dir (ctx s'))))))"
proof -
  from invoke_cases [OF assms] obtain s where
    s: "disk s = d0" "set (trace s) \<subseteq> {Log_warning}" "root_prefix (ctx s) = root_prefix c0" and
    d: "cmd = Create \<and> out = Exit 1 \<and> s' = emit (Print Prefix_already_exists) s \<or>
        install_specs w g c (specs c) (cmd = Create) s = (out, s')"
    by blast
  have tr: "\<forall>e \<in> set (trace s). fetch_event e" using s(2) by auto
  let ?s0 = "set_global_options g s"
  have s0: "trace ?s0 = trace s" "disk ?s0 = d0" "dry_run (ctx ?s0) = dry_run_opt g"
    "root_prefix (ctx ?s0) = root_prefix c0"
    using s by simp_all
  have plan: ?thesis if p: "plan_steps ?s0 s'"
  proof -
    from p obtain es where es: "trace s' = trace s @ es" "ctx s' = ctx ?s0"
      "d0 \<subseteq> disk s'" "disk s' \<subseteq> d0 \<union> set (dir_chain (cache_dir (ctx s')))"
      "\<forall>e \<in> set es. fetch_event e \<or> solver_event e \<or>
         e = Create_directories (cache_dir (ctx s'))"
      using s0 by (auto simp: plan_steps_def)
    have "trace s' = (trace s @ es) @ []" using es by simp
    moreover have "\<forall>e \<in> set (trace s @ es). fetch_event e \<or> solver_event e \<or>
         e = Create_directories (cache_dir (ctx s'))"
      using es tr by auto
    ultimately show ?thesis using es s0 by metis
  qed
  from d show ?thesis
  proof
    assume a: "cmd = Create \<and> out = Exit 1 \<and> s' = emit (Print Prefix_already_exists) s"
    have "trace s' = (trace s @ [Print Prefix_already_exists]) @ []" using a by simp
    moreover have "\<forall>e \<in> set (trace s @ [Print Prefix_already_exists]). fetch_event e \<or>
        solver_event e \<or> e = Create_directories (cache_dir (ctx s'))"
      using tr by auto
    moreover have "disk s' = d0" "root_prefix (ctx s') = root_prefix c0" using a s by simp_all
    ultimately show ?thesis by (metis Un_upper1 order_refl)
  next
    assume "install_specs w g c (specs c) (cmd = Create) s = (out, s')"
    from install_specs_to_prompt [OF this] show ?thesis
    proof
      assume "plan_steps ?s0 s'"
      then show ?thesis by (rule plan)
    next
      assume "\<exists>sp. plan_steps ?s0 sp \<and> prompt_transaction w (cmd = Create) sp = (out, s')"
      then obtain sp where sp: "plan_steps ?s0 sp"
        and pt: "prompt_transaction w (cmd = Create) sp = (out, s')"
        by blast
      from sp obtain es where es: "trace sp = trace s @ es" "ctx sp = ctx ?s0"
        "d0 \<subseteq> disk sp" "disk sp \<subseteq> d0 \<union> set (dir_chain (cache_dir (ctx sp)))"
        "\<forall>e \<in> set es. fetch_event e \<or> solver_event e \<or>
           e = Create_directories (cache_dir (ctx sp))"
        using s0 by (auto simp: plan_steps_def)
      from prompt_transaction_result [OF pt] obtain es' where
        c: "ctx s' = ctx sp" "disk sp \<subseteq> disk s'" and
        t: "trace s' = trace sp @ [Print Newline, Prompt (prompt w (ctx sp))] @ es'" and
        np: "\<forall>e \<in> set es'. e = Execute \<or> (\<exists>p. e = Create_directories p)" and
        no: "\<not> prompt w (ctx sp) \<longrightarrow> es' = [] \<and> out = Exit 0 \<and> disk s' = disk sp" and
        yes: "prompt w (ctx sp) \<and> (dry_run (ctx sp) \<or> \<not> cmd = Create)
                \<longrightarrow> es' = [Execute] \<and> disk s' = disk sp"
        by blast
      let ?pre = "trace s @ es @ [Print Newline]"
      have pre: "\<forall>e \<in> set ?pre. fetch_event e \<or> solver_event e \<or>
           e = Create_directories (cache_dir (ctx s'))"
        using es tr c by auto
      have t': "trace s' = ?pre @ Prompt (prompt w (ctx sp)) # es'" using t es by simp
      have basic: "d0 \<subseteq> disk s'" "root_prefix (ctx s') = root_prefix c0"
        using es c s0 by auto
      have dr: "dry_run (ctx sp) = dry_run_opt g" using es s0 by simp
      have inst: "(\<not> cmd = Create) = (cmd = Install)" by (cases cmd) simp_all
      show ?thesis
      proof (cases "prompt w (ctx sp)")
        case False
        with no have "es' = []" "out = Exit 0" "disk s' = disk sp" by simp_all
        with t' False es c have "trace s' = ?pre @ [Prompt False]"
          "disk s' \<subseteq> d0 \<union> set (dir_chain (cache_dir (ctx s')))"
          by simp_all
        with pre basic \<open>out = Exit 0\<close> show ?thesis by blast
      next
        case True
        with t' have t'': "trace s' = ?pre @ Prompt True # es'" by simp
        from True yes dr inst es c have
          "dry_run_opt g \<or> cmd = Install \<longrightarrow>
             es' = [Execute] \<and> disk s' \<subseteq> d0 \<union> set (dir_chain (cache_dir (ctx s')))"
          by auto
        with t'' pre basic np show ?thesis by blast
      qed
    qed
  qed
qed

lemmas run_defs =
  outcome_of_def final_state_def invoke_def install_callback_def create_callback_def
  install_specs_def fetch_repodata_def register_repos_def solve_and_plan_def
  prompt_transaction_def execute_transaction_def or_abort_def call_def emit_def
  create_directories_def dir_chain_def cache_dir_def path_append_def fs_exists_def
  set_network_options_def set_ssl_verify_def set_global_options_def set_channels_def
  start_def path_of_string_def new_repo_priority_def Let_def

lemmas example_defs =
  quiet_world_def declining_world_def conflict_world_def no_ssl_def dry_run_options_def
  default_global_options_def xtensor_options_def base_options_def mamba_env_def env_disk_def



lemma invoke_solved:
  assumes "invoke cmd w n g c c0 d0 = (out, s')" and "Solve \<in> set (trace s')"
  shows "\<exists>sr. at_solver w sr \<and> prefix (trace sr) (trace s') \<and> repos s' = repos sr \<and>
     ctx s' = ctx sr \<and> channels (ctx sr) = channels_opt c \<and>
     (\<forall>e \<in> set (trace sr). \<not> solver_event e)"
proof -
  from invoke_cases [OF assms(1)] obtain s where
    s: "set (trace s) \<subseteq> {Log_warning}" "channels (ctx s) = channels_opt c" and
    d: "cmd = Create \<and> out = Exit 1 \<and> s' = emit (Print Prefix_already_exists) s \<or>
        install_specs w g c (specs c) (cmd = Create) s = (out, s')"
    by blast
  from s(1) have no: "Solve \<notin> set (trace s)" by auto
  from d assms(2) no have "install_specs w g c (specs c) (cmd = Create) s = (out, s')"
    by auto
  from install_specs_solved [OF this assms(2) no] obtain sr where
    sr: "early_steps (set_global_options g s) sr" "at_solver w sr"
      "prefix (trace sr) (trace s')" "repos s' = repos sr" "ctx s' = ctx sr"
    by blast
  from sr(1) obtain es where es: "ctx sr = ctx (set_global_options g s)"
    "trace sr = trace s @ es"
    "\<forall>e \<in> set es. fetch_event e \<or>
       e = Create_directories (cache_dir (ctx (set_global_options g s)))"
    by (auto simp: early_steps_def)
  from es(1) s(2) have "channels (ctx sr) = channels_opt c" by simp
  moreover have "\<forall>e \<in> set (trace sr). \<not> solver_event e"
  proof
    fix e assume "e \<in> set (trace sr)"
    with es(2) have "e \<in> set (trace s) \<or> e \<in> set es" by auto
    then show "\<not> solver_event e"
    proof
      assume "e \<in> set (trace s)"
      with s(1) have "e = Log_warning" by auto
      then show ?thesis by simp
    next
      assume "e \<in> set es"
      with es(3) have "fetch_event e \<or>
        e = Create_directories (cache_dir (ctx (set_global_options g s)))" by blast
      then show ?thesis by (cases e) auto
    qed
  qed
  ultimately show ?thesis using sr by blast
qed

lemma pool_repos_nth:
  assumes "1 \<le> i" and "i \<le> length urls"
  shows "pool_repos urls ! i =
     \<lparr>source = Channel (urls ! (i - 1)), priority = int (length urls) - int i + 1,
      subpriority = 0\<rparr>"
proof -
  from assms obtain k where k: "i = Suc k" "k < length urls"
    by (cases i) auto
  then have "pool_repos urls ! i =
      (\<lambda>(i, u). \<lparr>source = Channel u, priority = int (length urls) - int i,
                  subpriority = 0\<rparr>) (enumerate 0 urls ! k)"
    by (simp add: pool_repos_def)
  also have "enumerate 0 urls ! k = (k, urls ! k)"
    using k by (simp add: nth_enumerate_eq)
  finally show ?thesis using k by simp
qed


text \<open>
  A disk that differs from the old one at most by a directory and its ancestors is the
  same below every path that is not one of them.
\<close>

lemma cache_dir_frame:
  assumes "d0 \<subseteq> d" and "d \<subseteq> d0 \<union> set (dir_chain cd)"
    and "\<not> prefix t cd" and "prefix t q"
  shows "q \<in> d \<longleftrightarrow> q \<in> d0"
proof
  assume "q \<in> d"
  with assms(2) have "q \<in> d0 \<or> q \<in> set (dir_chain cd)" by blast
  then show "q \<in> d0"
  proof
    assume "q \<in> set (dir_chain cd)"
    then have "q \<in> set (prefixes cd)"
      unfolding dir_chain_def by (rule list.set_sel(2) [rotated]) simp
    then have "prefix q cd" by (simp add: in_set_prefixes)
    with assms(3,4) show ?thesis using prefix_order.order_trans by blast
  qed
next
  assume "q \<in> d0"
  with assms(1) show "q \<in> d" by blast
qed

section \<open>Properties of \<open>list_packages\<close>\<close>

text \<open>
  Claim C9: every sequence access of \<open>list_packages\<close> is in bounds, also for a snapshot
  without packages. The code does not do this. With no installed package \<open>aux\<close> is
  empty, \<open>aux.size() - 4\<close> wraps around to \<open>2^64 - 4\<close>, the loop is entered with
  \<open>j = 0\<close> and reads \<open>aux[0]\<close> to \<open>aux[3]\<close> of an empty vector, whatever the
  library's \<open>split\<close> does (\<open>list_packages_out_of_bounds_iff\<close> has every case).
\<close>

theorem list_packages_empty_snapshot_out_of_bounds:
  "list_packages sp [] = None"
  by (simp add: list_packages_def collect_aux.simps add_rows.simps word_less_nat_alt)

text \<open>
  The other access named by the claim fails as well: a package that is not from a default
  channel and whose channel is split into fewer than four parts has no
  \<open>splitted_channel[3]\<close>.
\<close>

lemma list_packages_short_channel_out_of_bounds:
  assumes "p \<in> set ps" and "\<not> prefix default_channel_url (channel p)"
    and "length (sp (channel p) ''/'') \<le> 3"
  shows "list_packages sp ps = None"
proof -
  from assms have "\<exists>p \<in> set ps. \<not> channel_in_bounds sp p"
    by (auto simp: channel_in_bounds_def)
  then have "fill_ordered_packages sp ps [] = None"
    by (rule fill_ordered_packages_out_of_bounds)
  then show ?thesis by (simp only: list_packages_def option.case)
qed

text \<open>
  Claim C10: for a snapshot that is not empty the table has one row for each installed
  package. The code does not do this: the last loop stops at \<open>j < aux.size() - 4\<close>, one
  row early, so the package that is last in the order gets no row
  (\<open>list_packages_rows\<close>). With one installed package, whichever it is and whatever the
  library's \<open>split\<close> returns for its channel, the table has no row at all: either
  \<open>splitted_channel[3]\<close> is out of bounds, or the loop that adds the rows is not entered.
\<close>

theorem list_packages_single_package_no_row:
  "list_packages sp [p] = (if channel_in_bounds sp p then Some [] else None)"
proof (cases "channel_in_bounds sp p")
  case True
  have "list_packages sp [p] = Some (map (table_row sp) (butlast (sort_key name [p])))"
    by (rule list_packages_rows) (use True in simp_all)
  with True show ?thesis by simp
next
  case False
  then have "fill_ordered_packages sp [p] [] = None"
    by (simp add: insert_package_entries)
  then have "list_packages sp [p] = None" by (simp only: list_packages_def option.case)
  with False show ?thesis by simp
qed

text \<open>
  A package of a default channel, for which \<open>split\<close> is not called: all accesses are in
  bounds and the table has no row for it.
\<close>

lemma list_packages_default_channel_package_no_row:
  "list_packages sp
     [\<lparr>name = ''bzip2'', version = ''1.0.8'', build_string = ''h7'',
       channel = ''https://repo.anaconda.com/pkgs/main/linux-64''\<rparr>] = Some []"
  by (simp add: list_packages_def insert_package_def default_channel_url_def
       mm_insert_def equal_range_def collect_aux.simps add_rows.simps)

text \<open>
  Two packages of a default channel, for which \<open>split\<close> is not called: one row, that of
  the package that is first in the order of the names.
\<close>

lemma list_packages_two_packages_one_row:
  "list_packages sp
     [\<lparr>name = ''zlib'', version = ''1.2.11'', build_string = ''h1'',
       channel = ''https://repo.anaconda.com/pkgs/main/linux-64''\<rparr>,
      \<lparr>name = ''bzip2'', version = ''1.0.8'', build_string = ''h7'',
       channel = ''https://repo.anaconda.com/pkgs/main/linux-64''\<rparr>]
   = Some [[''bzip2'', ''1.0.8'', ''h7'', []]]"
  by (simp add: list_packages_def insert_package_def default_channel_url_def
       mm_insert_def equal_range_def collect_aux.simps add_rows.simps word_less_nat_alt)

section \<open>Properties of the install and create commands\<close>

text \<open>
  In the theorems below an invocation is \<open>invoke cmd w n g c c0 d0\<close>: the subcommand, the
  world, the three option structs, and the context and the disk that the process finds.
  \<open>disk\<close> follows the calls of \<open>fs::create_directories\<close> that main.cpp makes itself; what
  the library calls write (the repodata cache files, the linked packages) is behind their
  events.
\<close>

subsection \<open>Dry run\<close>

text \<open>
  Claim C1 says that with the dry-run flag the transaction stops before \<open>execute\<close>.
  \<open>install_specs\<close> reads the flag only to skip the three \<open>create_directories\<close>
  calls behind the prompt: when the prompt returns true, \<open>trans.execute\<close> is called all
  the same. Counterexample: an install with \<open>--dry-run\<close> whose prompt answers yes.
\<close>

theorem dry_run_execute_is_invoked:
  "dry_run_opt dry_run_options \<and>
   Execute \<in> set (trace (final_state Install quiet_world no_ssl dry_run_options
                         xtensor_options mamba_env env_disk))"
  by (simp add: run_defs example_defs)

text \<open>
  Claim C1, amended: for every install or create invocation with the dry-run flag set,
  the only \<open>create_directories\<close> call of main.cpp is the one for the cache directory
  \<open>pkgs/cache\<close> below the root prefix, so the disk differs from before at most by that
  directory and its ancestors, and the target environment is unchanged by main.cpp
  whenever the target prefix is not the cache directory or one of its ancestors;
  \<open>execute\<close> is called exactly when the prompt has returned true, and then the call is
  the last step of the run, directly behind the prompt. Link and unlink steps can
  therefore run only inside that one call of \<open>trans.execute\<close>; what it does in a dry
  run is decided in the transaction, outside main.cpp.
\<close>

theorem dry_run_executes_exactly_after_yes:
  assumes "dry_run_opt g"
  shows "(\<forall>p. Create_directories p \<in> set (trace (final_state cmd w n g c c0 d0))
            \<longrightarrow> p = cache_dir (ctx (final_state cmd w n g c c0 d0))) \<and>
     d0 \<subseteq> disk (final_state cmd w n g c c0 d0) \<and>
     disk (final_state cmd w n g c c0 d0)
       \<subseteq> d0 \<union> set (dir_chain (cache_dir (ctx (final_state cmd w n g c c0 d0)))) \<and>
     (\<not> prefix (target_prefix (ctx (final_state cmd w n g c c0 d0)))
           (cache_dir (ctx (final_state cmd w n g c c0 d0)))
        \<longrightarrow> (\<forall>q. prefix (target_prefix (ctx (final_state cmd w n g c c0 d0))) q
               \<longrightarrow> (q \<in> disk (final_state cmd w n g c c0 d0) \<longleftrightarrow> q \<in> d0))) \<and>
     (Execute \<in> set (trace (final_state cmd w n g c c0 d0))
        \<longleftrightarrow> Prompt True \<in> set (trace (final_state cmd w n g c c0 d0))) \<and>
     (Prompt True \<in> set (trace (final_state cmd w n g c c0 d0))
        \<longrightarrow> (\<exists>pre. trace (final_state cmd w n g c c0 d0) = pre @ [Prompt True, Execute] \<and>
               Execute \<notin> set pre \<and> Prompt True \<notin> set pre))"
proof -
  obtain out s' where r: "invoke cmd w n g c c0 d0 = (out, s')" by fastforce
  then have f: "final_state cmd w n g c c0 d0 = s'" by (simp add: final_state_def)
  from invoke_summary [OF r] obtain pre post where
    t: "trace s' = pre @ post" and b: "d0 \<subseteq> disk s'" and
    pre: "\<forall>e \<in> set pre. fetch_event e \<or> solver_event e \<or>
        e = Create_directories (cache_dir (ctx s'))" and
    post: "post = [] \<and> disk s' \<subseteq> d0 \<union> set (dir_chain (cache_dir (ctx s'))) \<or>
      post = [Prompt False] \<and> out = Exit 0 \<and>
        disk s' \<subseteq> d0 \<union> set (dir_chain (cache_dir (ctx s'))) \<or>
      (\<exists>es. post = Prompt True # es \<and>
         (\<forall>e \<in> set es. e = Execute \<or> (\<exists>p. e = Create_directories p)) \<and>
         (dry_run_opt g \<or> cmd = Install
            \<longrightarrow> es = [Execute] \<and> disk s' \<subseteq> d0 \<union> set (dir_chain (cache_dir (ctx s')))))"
    by blast
  have pre_cd: "p = cache_dir (ctx s')" if "Create_directories p \<in> set pre" for p
    using pre that by fastforce
  have pre_ex: "Execute \<notin> set pre" "Prompt True \<notin> set pre"
    using pre by fastforce+
  from post assms have
    shape: "post = [] \<or> post = [Prompt False] \<or> post = [Prompt True, Execute]" and
    d: "disk s' \<subseteq> d0 \<union> set (dir_chain (cache_dir (ctx s')))"
    by auto
  have frame: "q \<in> disk s' \<longleftrightarrow> q \<in> d0"
    if "\<not> prefix (target_prefix (ctx s')) (cache_dir (ctx s'))"
      and "prefix (target_prefix (ctx s')) q" for q
    using b d that by (rule cache_dir_frame)
  have cd: "\<forall>p. Create_directories p \<in> set (trace s') \<longrightarrow> p = cache_dir (ctx s')"
    using t shape pre_cd by auto
  have ex: "Execute \<in> set (trace s') \<longleftrightarrow> Prompt True \<in> set (trace s')"
    using t shape pre_ex by auto
  have last: "\<exists>pre. trace s' = pre @ [Prompt True, Execute] \<and>
      Execute \<notin> set pre \<and> Prompt True \<notin> set pre"
    if "Prompt True \<in> set (trace s')"
  proof -
    from that t shape pre_ex have "post = [Prompt True, Execute]" by auto
    with t pre_ex show ?thesis by blast
  qed
  from cd b d frame ex last show ?thesis unfolding f by blast
qed

text \<open>
  Witness for C1: a create with \<open>--dry-run\<close> and a prompt that answers yes.
\<close>

theorem dry_run_executes_exactly_after_yes_witness:
  "dry_run_opt dry_run_options \<and>
   Prompt True \<in> set (trace (final_state Create quiet_world no_ssl dry_run_options
                             xtensor_options mamba_env env_disk)) \<and>
   Execute \<in> set (trace (final_state Create quiet_world no_ssl dry_run_options
                         xtensor_options mamba_env env_disk)) \<and>
   disk (final_state Create quiet_world no_ssl dry_run_options xtensor_options mamba_env
          env_disk)
     \<subseteq> env_disk \<union> set (dir_chain (cache_dir (ctx (final_state Create quiet_world no_ssl
              dry_run_options xtensor_options mamba_env env_disk))))"
proof -
  have h: "dry_run_opt dry_run_options"
    by (simp add: example_defs)
  have p: "Prompt True \<in> set (trace (final_state Create quiet_world no_ssl dry_run_options
                             xtensor_options mamba_env env_disk))"
    by (simp add: run_defs example_defs)
  from dry_run_executes_exactly_after_yes [OF h, of Create quiet_world no_ssl
      xtensor_options mamba_env env_disk] h p
  show ?thesis by blast
qed

subsection \<open>Runs that end before the confirmation\<close>

text \<open>
  Claim C2 says that an invocation that fails before the confirmation leaves the disk as
  it was. \<open>install_specs\<close> creates \<open>pkgs/cache\<close> below the root prefix before any
  metadata is loaded and before the solver runs. Counterexample: the solver throws, and
  the cache directory, which was not there before, exists afterwards.
\<close>

theorem solver_failure_leaves_cache_directory:
  "outcome_of Install conflict_world no_ssl default_global_options xtensor_options mamba_env
     env_disk = Uncaught_exception \<and>
   Prompt True \<notin> set (trace (final_state Install conflict_world no_ssl default_global_options
                             xtensor_options mamba_env env_disk)) \<and>
   [''/'', ''opt'', ''mamba'', ''pkgs'', ''cache'']
     \<in> disk (final_state Install conflict_world no_ssl default_global_options
               xtensor_options mamba_env env_disk) \<and>
   [''/'', ''opt'', ''mamba'', ''pkgs'', ''cache''] \<notin> env_disk"
  by (simp add: run_defs example_defs)

text \<open>
  Claim C2, amended: for every invocation in which the prompt has not returned true
  (so also for every one that fails before it), the only locations that main.cpp itself
  may have created are the cache directory \<open>pkgs/cache\<close> below the root prefix and its
  ancestors; nothing that existed is removed, \<open>execute\<close> is not called, and no other
  \<open>create_directories\<close> call is made. So the target environment is unchanged whenever
  the target prefix is not the cache directory or one of its ancestors (as the root
  prefix is).
\<close>

theorem unconfirmed_run_creates_cache_directory_only:
  assumes "Prompt True \<notin> set (trace (final_state cmd w n g c c0 d0))"
  shows "d0 \<subseteq> disk (final_state cmd w n g c c0 d0) \<and>
     disk (final_state cmd w n g c c0 d0)
       \<subseteq> d0 \<union> set (dir_chain (cache_dir (ctx (final_state cmd w n g c c0 d0)))) \<and>
     root_prefix (ctx (final_state cmd w n g c c0 d0)) = root_prefix c0 \<and>
     Execute \<notin> set (trace (final_state cmd w n g c c0 d0)) \<and>
     (\<forall>p. Create_directories p \<in> set (trace (final_state cmd w n g c c0 d0))
        \<longrightarrow> p = cache_dir (ctx (final_state cmd w n g c c0 d0))) \<and>
     (\<not> prefix (target_prefix (ctx (final_state cmd w n g c c0 d0)))
           (cache_dir (ctx (final_state cmd w n g c c0 d0)))
        \<longrightarrow> (\<forall>q. prefix (target_prefix (ctx (final_state cmd w n g c c0 d0))) q
               \<longrightarrow> (q \<in> disk (final_state cmd w n g c c0 d0) \<longleftrightarrow> q \<in> d0)))"
proof -
  obtain out s' where r: "invoke cmd w n g c c0 d0 = (out, s')" by fastforce
  then have f: "final_state cmd w n g c c0 d0 = s'" by (simp add: final_state_def)
  from invoke_summary [OF r] obtain pre post where
    t: "trace s' = pre @ post" and b: "d0 \<subseteq> disk s'" "root_prefix (ctx s') = root_prefix c0" and
    pre: "\<forall>e \<in> set pre. fetch_event e \<or> solver_event e \<or>
        e = Create_directories (cache_dir (ctx s'))" and
    post: "post = [] \<and> disk s' \<subseteq> d0 \<union> set (dir_chain (cache_dir (ctx s'))) \<or>
      post = [Prompt False] \<and> out = Exit 0 \<and>
        disk s' \<subseteq> d0 \<union> set (dir_chain (cache_dir (ctx s'))) \<or>
      (\<exists>es. post = Prompt True # es \<and>
         (\<forall>e \<in> set es. e = Execute \<or> (\<exists>p. e = Create_directories p)) \<and>
         (dry_run_opt g \<or> cmd = Install
            \<longrightarrow> es = [Execute] \<and> disk s' \<subseteq> d0 \<union> set (dir_chain (cache_dir (ctx s')))))"
    by blast
  have pre_cd: "p = cache_dir (ctx s')" if "Create_directories p \<in> set pre" for p
    using pre that by fastforce
  have pre_ex: "Execute \<notin> set pre"
    using pre by fastforce
  from post assms t have
    shape: "post = [] \<or> post = [Prompt False]" and
    d: "disk s' \<subseteq> d0 \<union> set (dir_chain (cache_dir (ctx s')))"
    unfolding f by auto
  have frame: "q \<in> disk s' \<longleftrightarrow> q \<in> d0"
    if "\<not> prefix (target_prefix (ctx s')) (cache_dir (ctx s'))"
      and "prefix (target_prefix (ctx s')) q" for q
    using b(1) d that by (rule cache_dir_frame)
  have cd: "\<forall>p. Create_directories p \<in> set (trace s') \<longrightarrow> p = cache_dir (ctx s')"
    using t shape pre_cd by auto
  have ex: "Execute \<notin> set (trace s')"
    using t shape pre_ex by auto
  from b d ex cd frame show ?thesis unfolding f by blast
qed

text \<open>
  Witness for C2: the install in which the solver throws.
\<close>

theorem unconfirmed_run_creates_cache_directory_only_witness:
  "Prompt True \<notin> set (trace (final_state Install conflict_world no_ssl default_global_options
                             xtensor_options mamba_env env_disk)) \<and>
   env_disk \<subseteq> disk (final_state Install conflict_world no_ssl default_global_options
                      xtensor_options mamba_env env_disk) \<and>
   Execute \<notin> set (trace (final_state Install conflict_world no_ssl default_global_options
                         xtensor_options mamba_env env_disk))"
proof -
  have h: "Prompt True \<notin> set (trace (final_state Install conflict_world no_ssl
             default_global_options xtensor_options mamba_env env_disk))"
    by (simp add: run_defs example_defs)
  from unconfirmed_run_creates_cache_directory_only [OF h] h show ?thesis by blast
qed

subsection \<open>A declined prompt\<close>

text \<open>
  Claim C6 says that after a declined prompt no directory of the target environment has
  been created and the target environment is unchanged. The cache directory is created
  before the prompt, and it can lie in the target prefix. Counterexample: a create whose
  prefix is the root prefix, which does not exist yet; after the user has declined, the
  target prefix exists.
\<close>

theorem declined_create_at_root_prefix_creates_target:
  "Prompt False \<in> set (trace (final_state Create declining_world no_ssl default_global_options
                             base_options mamba_env bare_disk)) \<and>
   target_prefix (ctx (final_state Create declining_world no_ssl default_global_options
                        base_options mamba_env bare_disk)) \<notin> bare_disk \<and>
   target_prefix (ctx (final_state Create declining_world no_ssl default_global_options
                        base_options mamba_env bare_disk))
     \<in> disk (final_state Create declining_world no_ssl default_global_options
               base_options mamba_env bare_disk)"
  by (simp add: run_defs example_defs bare_disk_def)

text \<open>
  Claim C6, amended: for every invocation in which the prompt returns false, the process
  exits with code 0, \<open>execute\<close> is not called, the only \<open>create_directories\<close> call is
  the one for the cache directory, and the disk differs from before at most by the cache
  directory and its ancestors; so the target environment is unchanged whenever the target
  prefix is not the cache directory or one of its ancestors.
\<close>

theorem declined_prompt_exits_without_execute:
  assumes "Prompt False \<in> set (trace (final_state cmd w n g c c0 d0))"
  shows "outcome_of cmd w n g c c0 d0 = Exit 0 \<and>
     Execute \<notin> set (trace (final_state cmd w n g c c0 d0)) \<and>
     (\<forall>p. Create_directories p \<in> set (trace (final_state cmd w n g c c0 d0))
        \<longrightarrow> p = cache_dir (ctx (final_state cmd w n g c c0 d0))) \<and>
     d0 \<subseteq> disk (final_state cmd w n g c c0 d0) \<and>
     disk (final_state cmd w n g c c0 d0)
       \<subseteq> d0 \<union> set (dir_chain (cache_dir (ctx (final_state cmd w n g c c0 d0)))) \<and>
     (\<not> prefix (target_prefix (ctx (final_state cmd w n g c c0 d0)))
           (cache_dir (ctx (final_state cmd w n g c c0 d0)))
        \<longrightarrow> (\<forall>q. prefix (target_prefix (ctx (final_state cmd w n g c c0 d0))) q
               \<longrightarrow> (q \<in> disk (final_state cmd w n g c c0 d0) \<longleftrightarrow> q \<in> d0)))"
proof -
  obtain out s' where r: "invoke cmd w n g c c0 d0 = (out, s')" by fastforce
  then have f: "final_state cmd w n g c c0 d0 = s'" "outcome_of cmd w n g c c0 d0 = out"
    by (simp_all add: final_state_def outcome_of_def)
  from invoke_summary [OF r] obtain pre post where
    t: "trace s' = pre @ post" and b: "d0 \<subseteq> disk s'" and
    pre: "\<forall>e \<in> set pre. fetch_event e \<or> solver_event e \<or>
        e = Create_directories (cache_dir (ctx s'))" and
    post: "post = [] \<and> disk s' \<subseteq> d0 \<union> set (dir_chain (cache_dir (ctx s'))) \<or>
      post = [Prompt False] \<and> out = Exit 0 \<and>
        disk s' \<subseteq> d0 \<union> set (dir_chain (cache_dir (ctx s'))) \<or>
      (\<exists>es. post = Prompt True # es \<and>
         (\<forall>e \<in> set es. e = Execute \<or> (\<exists>p. e = Create_directories p)) \<and>
         (dry_run_opt g \<or> cmd = Install
            \<longrightarrow> es = [Execute] \<and> disk s' \<subseteq> d0 \<union> set (dir_chain (cache_dir (ctx s')))))"
    by blast
  have pre_cd: "p = cache_dir (ctx s')" if "Create_directories p \<in> set pre" for p
    using pre that by fastforce
  have pre_ex: "Execute \<notin> set pre" "Prompt False \<notin> set pre"
    using pre by fastforce+
  from post assms t pre_ex have p: "post = [Prompt False]" "out = Exit 0"
    and d: "disk s' \<subseteq> d0 \<union> set (dir_chain (cache_dir (ctx s')))"
    unfolding f by auto
  have frame: "q \<in> disk s' \<longleftrightarrow> q \<in> d0"
    if np: "\<not> prefix (target_prefix (ctx s')) (cache_dir (ctx s'))"
      and q: "prefix (target_prefix (ctx s')) q" for q
  proof
    assume "q \<in> disk s'"
    with d have "q \<in> d0 \<or> q \<in> set (dir_chain (cache_dir (ctx s')))" by blast
    then show "q \<in> d0"
    proof
      assume "q \<in> set (dir_chain (cache_dir (ctx s')))"
      then have "q \<in> set (prefixes (cache_dir (ctx s')))"
        unfolding dir_chain_def by (rule list.set_sel(2) [rotated]) simp
      then have "prefix q (cache_dir (ctx s'))" by (simp add: in_set_prefixes)
      with q np show ?thesis using prefix_order.order_trans by blast
    qed
  next
    assume "q \<in> d0"
    with b show "q \<in> disk s'" by blast
  qed
  from t p pre_cd pre_ex b d frame show ?thesis unfolding f by auto
qed

text \<open>
  Witness for C6: a create of a new prefix beside the root prefix, declined.
\<close>

theorem declined_prompt_exits_without_execute_witness:
  "Prompt False \<in> set (trace (final_state Create declining_world no_ssl default_global_options
                             xtensor_options mamba_env env_disk)) \<and>
   outcome_of Create declining_world no_ssl default_global_options xtensor_options mamba_env
     env_disk = Exit 0 \<and>
   Execute \<notin> set (trace (final_state Create declining_world no_ssl default_global_options
                         xtensor_options mamba_env env_disk))"
proof -
  have h: "Prompt False \<in> set (trace (final_state Create declining_world no_ssl
             default_global_options xtensor_options mamba_env env_disk))"
    by (simp add: run_defs example_defs)
  from declined_prompt_exits_without_execute [OF h] h show ?thesis by blast
qed

subsection \<open>Configuration errors\<close>

text \<open>
  Claim C7: an install with an empty root prefix, an empty target prefix or a target
  prefix that does not exist reports the problem and exits with code 1; until then it has
  only written to the console (and possibly logged the warning about certificates): no
  directory is created, no library call is made, the disk is as before. The report is
  the message of the first check that fails, in the order root prefix, target prefix,
  existence of the target prefix; it is printed behind the banner and is the last output.
\<close>

theorem install_config_error_exits_first:
  assumes "root_prefix c0 = [] \<or> target_prefix c0 = [] \<or> target_prefix c0 \<notin> d0"
  shows "outcome_of Install w n g c c0 d0 = Exit 1 \<and>
     disk (final_state Install w n g c c0 d0) = d0 \<and>
     (\<forall>e \<in> set (trace (final_state Install w n g c c0 d0)).
        e = Log_warning \<or> (\<exists>m. e = Print m)) \<and>
     (\<exists>pre. set pre \<subseteq> {Log_warning} \<and>
        trace (final_state Install w n g c c0 d0) =
          pre @ [Print Banner,
                 Print (if root_prefix c0 = [] then No_root_prefix
                        else if target_prefix c0 = [] then No_target_prefix
                        else Prefix_does_not_exist)])"
proof -
  let ?m = "if root_prefix c0 = [] then No_root_prefix
            else if target_prefix c0 = [] then No_target_prefix
            else Prefix_does_not_exist"
  let ?s = "set_channels c (set_network_options n (start c0 d0))"
  let ?s1 = "emit (Print Banner) (set_global_options g ?s)"
  have s: "disk ?s = d0" "set (trace ?s) \<subseteq> {Log_warning}"
    "root_prefix (ctx ?s) = root_prefix c0" "target_prefix (ctx ?s) = target_prefix c0"
    using set_network_options_fields [of n "start c0 d0"] by (simp_all add: start_def)
  then have s1: "disk ?s1 = d0" "trace ?s1 = trace ?s @ [Print Banner]"
    "root_prefix (ctx ?s1) = root_prefix c0" "target_prefix (ctx ?s1) = target_prefix c0"
    by simp_all
  have inv: "invoke Install w n g c c0 d0 = install_specs w g c (specs c) False ?s"
    by (simp add: invoke_def install_callback_def)
  from assms s1 have
    "install_specs w g c (specs c) False ?s = (Exit 1, emit (Print ?m) ?s1)"
    by (auto simp: install_specs_def Let_def fs_exists_def)
  with inv have m: "invoke Install w n g c c0 d0 = (Exit 1, emit (Print ?m) ?s1)"
    by simp
  have tr: "trace (emit (Print ?m) ?s1) = trace ?s @ [Print Banner, Print ?m]"
    using s1 by simp
  have "\<forall>e \<in> set (trace (emit (Print ?m) ?s1)). e = Log_warning \<or> (\<exists>m. e = Print m)"
    unfolding tr using s(2) by auto
  moreover have "\<exists>pre. set pre \<subseteq> {Log_warning} \<and>
      trace (emit (Print ?m) ?s1) = pre @ [Print Banner, Print ?m]"
    using tr s(2) by blast
  moreover have "disk (emit (Print ?m) ?s1) = d0" using s1 by simp
  ultimately show ?thesis
    unfolding outcome_of_def final_state_def m fst_conv snd_conv by blast
qed

text \<open>
  Witness for C7: an install without a root prefix.
\<close>

theorem install_config_error_exits_first_witness:
  "root_prefix (mamba_env\<lparr>root_prefix := []\<rparr>) = [] \<and>
   outcome_of Install quiet_world no_ssl default_global_options xtensor_options
     (mamba_env\<lparr>root_prefix := []\<rparr>) env_disk = Exit 1 \<and>
   disk (final_state Install quiet_world no_ssl default_global_options xtensor_options
     (mamba_env\<lparr>root_prefix := []\<rparr>) env_disk) = env_disk \<and>
   Print No_root_prefix
     \<in> set (trace (final_state Install quiet_world no_ssl default_global_options
                  xtensor_options (mamba_env\<lparr>root_prefix := []\<rparr>) env_disk))"
proof -
  have h: "root_prefix (mamba_env\<lparr>root_prefix := []\<rparr>) = [] \<or>
      target_prefix (mamba_env\<lparr>root_prefix := []\<rparr>) = [] \<or>
      target_prefix (mamba_env\<lparr>root_prefix := []\<rparr>) \<notin> env_disk"
    by simp
  from install_config_error_exits_first [OF h, where w = quiet_world and n = no_ssl
      and g = default_global_options and c = xtensor_options]
  show ?thesis by auto
qed

text \<open>
  Claim C8: a create whose target prefix exists on disk exits with code 1 after printing
  that the prefix exists; nothing is fetched, solved or created before.
\<close>

theorem create_existing_prefix_exits_first:
  assumes "path_of_string (prefix_opt c) \<noteq> []" and "path_of_string (prefix_opt c) \<in> d0"
  shows "outcome_of Create w n g c c0 d0 = Exit 1 \<and>
     disk (final_state Create w n g c c0 d0) = d0 \<and>
     (\<forall>e \<in> set (trace (final_state Create w n g c c0 d0)).
        e = Log_warning \<or> e = Print Prefix_already_exists) \<and>
     Print Prefix_already_exists \<in> set (trace (final_state Create w n g c c0 d0))"
proof -
  let ?s1 = "(start c0 d0)\<lparr>ctx := (ctx (start c0 d0))\<lparr>target_prefix :=
      path_of_string (prefix_opt c)\<rparr>\<rparr>"
  let ?s = "set_channels c (set_network_options n ?s1)"
  have s: "disk ?s = d0" "set (trace ?s) \<subseteq> {Log_warning}"
    "target_prefix (ctx ?s) = path_of_string (prefix_opt c)"
    using set_network_options_fields [of n ?s1] by (simp_all add: start_def)
  with assms have "fs_exists ?s (target_prefix (ctx ?s))"
    by (simp add: fs_exists_def)
  then have inv: "invoke Create w n g c c0 d0 = (Exit 1, emit (Print Prefix_already_exists) ?s)"
    by (simp add: invoke_def create_callback_def Let_def)
  have "\<forall>e \<in> set (trace (emit (Print Prefix_already_exists) ?s)).
      e = Log_warning \<or> e = Print Prefix_already_exists"
    using s(2) by auto
  with s(1) show ?thesis
    by (simp add: outcome_of_def final_state_def inv)
qed

text \<open>
  Witness for C8: a create of \<open>/opt/new\<close> on a disk where it exists.
\<close>

theorem create_existing_prefix_exits_first_witness:
  "path_of_string (prefix_opt xtensor_options) \<noteq> [] \<and>
   path_of_string (prefix_opt xtensor_options) \<in> {[''/'', ''opt'', ''new'']} \<and>
   outcome_of Create quiet_world no_ssl default_global_options xtensor_options mamba_env
     {[''/'', ''opt'', ''new'']} = Exit 1 \<and>
   disk (final_state Create quiet_world no_ssl default_global_options xtensor_options mamba_env
     {[''/'', ''opt'', ''new'']}) = {[''/'', ''opt'', ''new'']}"
proof -
  have h: "path_of_string (prefix_opt xtensor_options) \<noteq> []"
    "path_of_string (prefix_opt xtensor_options) \<in> {[''/'', ''opt'', ''new'']}"
    by (simp_all add: xtensor_options_def path_of_string_def)
  from create_existing_prefix_exits_first [OF h] h show ?thesis by blast
qed

subsection \<open>The priorities of the repos\<close>

text \<open>
  Claim C3 says that the repo of the \<open>i\<close>-th channel gets the priority pair
  \<open>(N - i + 1, 0)\<close> and that the first channel thereby has the best priority when a lower
  source rank is preferred. The pair is right, the conclusion is not: the first channel
  gets the highest number. Counterexample: with two channels the second one has the lower
  rank.
\<close>

theorem first_channel_gets_highest_rank:
  "map source (repos (final_state Install quiet_world no_ssl default_global_options
                       xtensor_options mamba_env env_disk))
     = [Installed, Channel ''conda-forge'', Channel ''defaults''] \<and>
   priority (repos (final_state Install quiet_world no_ssl default_global_options
                      xtensor_options mamba_env env_disk) ! 1) = 2 \<and>
   priority (repos (final_state Install quiet_world no_ssl default_global_options
                      xtensor_options mamba_env env_disk) ! 2) = 1 \<and>
   priority (repos (final_state Install quiet_world no_ssl default_global_options
                      xtensor_options mamba_env env_disk) ! 2)
     < priority (repos (final_state Install quiet_world no_ssl default_global_options
                          xtensor_options mamba_env env_disk) ! 1)"
  by (simp add: run_defs example_defs)

text \<open>
  Claim C3, amended: in every invocation that reaches the solver, with \<open>N\<close> the length
  of the list of channel URLs computed from the configured channels, the repo made from
  the \<open>i\<close>-th URL (counted from 1; it is then the \<open>i\<close>-th repo behind the installed one)
  has the priority pair \<open>(N - i + 1, 0)\<close>; the ranks are strictly decreasing in list
  order, so the first URL has the numerically highest rank.
\<close>

theorem channel_repo_priorities:
  assumes "Solve \<in> set (trace (final_state cmd w n g c c0 d0))"
    and "1 \<le> i" and "i \<le> length (calculate_channel_urls w (channels_opt c))"
  shows "repos (final_state cmd w n g c c0 d0) ! i =
       \<lparr>source = Channel (calculate_channel_urls w (channels_opt c) ! (i - 1)),
        priority = int (length (calculate_channel_urls w (channels_opt c))) - int i + 1,
        subpriority = 0\<rparr> \<and>
     length (repos (final_state cmd w n g c c0 d0))
       = Suc (length (calculate_channel_urls w (channels_opt c))) \<and>
     (\<forall>j. i < j \<and> j \<le> length (calculate_channel_urls w (channels_opt c))
        \<longrightarrow> priority (repos (final_state cmd w n g c c0 d0) ! j)
              < priority (repos (final_state cmd w n g c c0 d0) ! i)) \<and>
     priority (repos (final_state cmd w n g c c0 d0) ! i)
       \<le> priority (repos (final_state cmd w n g c c0 d0) ! 1)"
proof -
  let ?urls = "calculate_channel_urls w (channels_opt c)"
  obtain out s' where r: "invoke cmd w n g c c0 d0 = (out, s')" by fastforce
  then have f: "final_state cmd w n g c c0 d0 = s'" by (simp add: final_state_def)
  from invoke_solved [OF r] assms(1) obtain sr where
    "at_solver w sr" "repos s' = repos sr" "channels (ctx sr) = channels_opt c"
    unfolding f by blast
  then have rp: "repos s' = pool_repos ?urls" by (simp add: at_solver_def)
  have nth: "pool_repos ?urls ! j =
      \<lparr>source = Channel (?urls ! (j - 1)), priority = int (length ?urls) - int j + 1,
       subpriority = 0\<rparr>" if "1 \<le> j" "j \<le> length ?urls" for j
    using that by (rule pool_repos_nth)
  have len: "length (pool_repos ?urls) = Suc (length ?urls)"
    by (simp add: pool_repos_def)
  have one: "1 \<le> (1::nat)" "1 \<le> length ?urls" using assms(2,3) by simp_all
  show ?thesis
    unfolding f rp using nth [OF assms(2,3)] nth [OF one] len assms(2,3)
    by (auto simp: nth)
qed

text \<open>
  Witness for C3: the second of two channels gets rank 1.
\<close>

theorem channel_repo_priorities_witness:
  "Solve \<in> set (trace (final_state Install quiet_world no_ssl default_global_options
                        xtensor_options mamba_env env_disk)) \<and>
   (1::nat) \<le> 2 \<and>
   (2::nat) \<le> length (calculate_channel_urls quiet_world (channels_opt xtensor_options)) \<and>
   repos (final_state Install quiet_world no_ssl default_global_options
            xtensor_options mamba_env env_disk) ! 2
     = \<lparr>source = Channel ''defaults'', priority = 1, subpriority = 0\<rparr>"
proof -
  have h: "Solve \<in> set (trace (final_state Install quiet_world no_ssl default_global_options
                        xtensor_options mamba_env env_disk))"
    by (simp add: run_defs example_defs)
  have i: "(1::nat) \<le> 2"
    "(2::nat) \<le> length (calculate_channel_urls quiet_world (channels_opt xtensor_options))"
    by (simp_all add: example_defs)
  from channel_repo_priorities [OF h i] h i show ?thesis
    by (simp add: example_defs)
qed



subsection \<open>The solver flags\<close>

text \<open>
  Claim C4 is about the choice that the solver makes, which is not part of main.cpp. What
  main.cpp decides is the flag: every solver it makes has allow-downgrade set to 1.
\<close>

lemma solver_always_allows_downgrade:
  assumes "Solver_create fs \<in> set (trace (final_state cmd w n g c c0 d0))"
  shows "fs = [(SOLVER_FLAG_ALLOW_DOWNGRADE, 1)]"
proof -
  obtain out s' where r: "invoke cmd w n g c c0 d0 = (out, s')" by fastforce
  then have f: "final_state cmd w n g c c0 d0 = s'" by (simp add: final_state_def)
  from invoke_summary [OF r] obtain pre post where
    t: "trace s' = pre @ post" and
    pre: "\<forall>e \<in> set pre. fetch_event e \<or> solver_event e \<or>
        e = Create_directories (cache_dir (ctx s'))" and
    post: "post = [] \<or> post = [Prompt False] \<or>
      (\<exists>es. post = Prompt True # es \<and>
         (\<forall>e \<in> set es. e = Execute \<or> (\<exists>p. e = Create_directories p)))"
    by blast
  from post have "Solver_create fs \<notin> set post" by auto
  with assms t have "Solver_create fs \<in> set pre" unfolding f by simp
  with pre have "fetch_event (Solver_create fs) \<or> solver_event (Solver_create fs) \<or>
      Solver_create fs = Create_directories (cache_dir (ctx s'))"
    by blast
  then show ?thesis by simp
qed

end
